theory Spec2Isabelle
  imports Main
begin

section \<open>The chunked media uploader of lib/file\_uploader.js\<close>

text \<open>
  The uploader is event driven: \<open>upload\<close> runs \<open>_initMedia\<close> and returns; everything
  else happens in callbacks that the transport, the file stream and the timer queue of
  the host call later, one at a time. The embedding keeps the object's fields and the
  variables captured by the closures of \<open>upload\<close> in one record, turns every callback of
  the source into a function on that record, and lets an explicit event list say in
  which order the host calls them.
\<close>

subsection \<open>Values\<close>

type_synonym chunk = string
type_synonym raw = string

text \<open>Parameter values handed to the transport. \<open>JBase64 c\<close> stands for
  \<open>c.toString('base64')\<close>; \<open>JUndefined\<close> for a variable that holds \<open>undefined\<close>.\<close>

datatype jsval = JStr string | JNum int | JBase64 chunk | JUndefined

text \<open>Error values handed to callbacks: the transport's own errors are opaque, the
  uploader makes its own with \<open>new Error(message)\<close>.\<close>

datatype jserror = TransportError string | Error string

text \<open>Exceptions that are thrown, not passed to a callback: \<open>fs.statSync\<close> on a path it
  cannot stat, and a property read on \<open>undefined\<close>.\<close>

datatype thrown = StatError | TypeError

datatype perror = PError (message: "string option")

record pinfo =
  pi_state :: "string option"
  check_after_secs :: "int option"
  progress_percent :: "int option"
  pi_error :: "perror option"

record body =
  media_id_string :: "string option"
  processing_info :: "pinfo option"

text \<open>The three arguments \<open>(err, bodyObj, resp)\<close> with which the transport calls back;
  \<open>None\<close> is a falsy or missing argument.\<close>

record response =
  r_err :: "jserror option"
  r_body :: "body option"
  r_raw :: "raw option"

datatype http_method = GET | POST

record request =
  meth :: http_method
  endpoint :: string
  params :: "(string \<times> jsval) list"

text \<open>One invocation of the caller's completion callback \<open>cb\<close>, with its arguments.\<close>

datatype cb_call = CbCall (cb_err: "jserror option") (cb_body: "body option") (cb_resp: "raw option")

datatype log = LogAsyncFinish "body option" | LogProgress "int option"

text \<open>The callbacks that \<open>upload\<close> hands to the transport: the anonymous callback of
  \<open>_initMedia\<close>, the anonymous callback of \<open>_appendMedia\<close>, \<open>checkAsyncFinish\<close> and the
  anonymous callback of \<open>_statusMedia\<close>.\<close>

datatype continuation = InitCb | AppendCb | CheckAsyncFinish | StatusCb

text \<open>What the host knows of the file at \<open>file_path\<close>: the MIME type that
  \<open>mime.lookup\<close> gives, the size that \<open>fs.statSync\<close> gives (\<open>None\<close> when it throws),
  and the buffers that the read stream will emit.\<close>

record mfile =
  f_mime :: string
  f_stat :: "nat option"
  f_chunks :: "chunk list"

record uploader =
  upfile :: mfile
  isUploading :: bool
  isFileStreamEnded :: bool
  mediaTmpId :: "string option"
  chunkNumber :: nat
  streamOpen :: bool
  flowing :: bool
  unread :: "chunk list"
  endEmitted :: bool
  sent :: "request list"
  pending :: "continuation list"
  timers :: "int list"
  cbCalls :: "cb_call list"
  console :: "log list"

definition MAX_FILE_SIZE_BYTES :: nat where
  "MAX_FILE_SIZE_BYTES = 15 * 1024 * 1024"

definition MAX_VIDEO_SIZE_BYTES :: nat where
  "MAX_VIDEO_SIZE_BYTES = 512 * 1024 * 1024"

definition FileUploader :: "mfile \<Rightarrow> uploader" where
  "FileUploader f =
     \<lparr>upfile = f, isUploading = False, isFileStreamEnded = False, mediaTmpId = None,
      chunkNumber = 0, streamOpen = False, flowing = False, unread = [], endEmitted = False,
      sent = [], pending = [], timers = [], cbCalls = [], console = []\<rparr>"

subsection \<open>The host's primitives\<close>

definition twit_post :: "string \<Rightarrow> (string \<times> jsval) list \<Rightarrow> continuation \<Rightarrow> uploader \<Rightarrow> uploader" where
  "twit_post path ps k s =
     s\<lparr>sent := sent s @ [\<lparr>meth = POST, endpoint = path, params = ps\<rparr>],
       pending := pending s @ [k]\<rparr>"

definition twit_get :: "string \<Rightarrow> (string \<times> jsval) list \<Rightarrow> continuation \<Rightarrow> uploader \<Rightarrow> uploader" where
  "twit_get path ps k s =
     s\<lparr>sent := sent s @ [\<lparr>meth = GET, endpoint = path, params = ps\<rparr>],
       pending := pending s @ [k]\<rparr>"

definition cb :: "jserror option \<Rightarrow> body option \<Rightarrow> raw option \<Rightarrow> uploader \<Rightarrow> uploader" where
  "cb err bodyObj resp s = s\<lparr>cbCalls := cbCalls s @ [CbCall err bodyObj resp]\<rparr>"

definition console_log :: "log \<Rightarrow> uploader \<Rightarrow> uploader" where
  "console_log l s = s\<lparr>console := console s @ [l]\<rparr>"

text \<open>\<open>setTimeout(checkStatus, ms)\<close>: \<open>checkStatus\<close> is the only function ever scheduled,
  so a pending timer is its delay.\<close>

definition setTimeout :: "int \<Rightarrow> uploader \<Rightarrow> uploader" where
  "setTimeout ms s = s\<lparr>timers := timers s @ [ms]\<rparr>"

definition new_Error :: "string option \<Rightarrow> jserror" where
  "new_Error m = Error (case m of None \<Rightarrow> [] | Some x \<Rightarrow> x)"

definition js_of :: "string option \<Rightarrow> jsval" where
  "js_of v = (case v of None \<Rightarrow> JUndefined | Some x \<Rightarrow> JStr x)"

text \<open>\<open>util.format('%d', n)\<close> for a size: its decimal digits.\<close>

fun dec :: "nat \<Rightarrow> string" where
  "dec n =
     (if n < 10 then [''0123456789'' ! n]
      else dec (n div 10) @ [''0123456789'' ! (n mod 10)])"

declare dec.simps [simp del]

subsection \<open>The methods of FileUploader\<close>

definition isUploadComplete :: "uploader \<Rightarrow> bool" where
  "isUploadComplete s = (\<not> isUploading s \<and> isFileStreamEnded s)"

definition statusMedia :: "jsval \<Rightarrow> continuation \<Rightarrow> uploader \<Rightarrow> uploader" where
  "statusMedia media_id k s =
     twit_get ''media/upload'' [(''command'', JStr ''STATUS''), (''media_id'', media_id)] k s"

definition finalizeMedia :: "jsval \<Rightarrow> continuation \<Rightarrow> uploader \<Rightarrow> uploader" where
  "finalizeMedia media_id k s =
     twit_post ''media/upload'' [(''command'', JStr ''FINALIZE''), (''media_id'', media_id)] k s"

text \<open>\<open>media_id_string.toString()\<close> throws when INIT's body had no \<open>media_id_string\<close>.\<close>

definition appendMedia :: "string option \<Rightarrow> jsval \<Rightarrow> nat \<Rightarrow> continuation \<Rightarrow> uploader \<Rightarrow> thrown + uploader" where
  "appendMedia media_id_str chunk_part segment_index k s =
     (case media_id_str of
        None \<Rightarrow> Inl TypeError
      | Some m \<Rightarrow>
          Inr (twit_post ''media/upload''
                 [(''command'', JStr ''APPEND''), (''media_id'', JStr m),
                  (''segment_index'', JNum (int segment_index)), (''media'', chunk_part)] k s))"

definition imageMime :: "string list" where
  "imageMime = [''image/png'', ''image/jpeg'', ''image/webp'']"

definition animatedGifMime :: "string list" where
  "animatedGifMime = [''image/gif'']"

definition videoMime :: "string list" where
  "videoMime = [''video/mp4'']"

definition maxSizeBytes :: "string \<Rightarrow> nat" where
  "maxSizeBytes mediaType =
     (if mediaType \<in> set videoMime then MAX_VIDEO_SIZE_BYTES else MAX_FILE_SIZE_BYTES)"

text \<open>The variable \<open>mediaCategory\<close> after the three assignments, \<open>None\<close> for \<open>null\<close>.\<close>

definition mediaCategory :: "string \<Rightarrow> string option" where
  "mediaCategory mediaType =
     (let c0 = None;
          c1 = (if mediaType \<in> set imageMime then Some ''tweet_image'' else c0);
          c2 = (if mediaType \<in> set animatedGifMime then Some ''tweet_gif'' else c1);
          c3 = (if mediaType \<in> set videoMime then Some ''tweet_video'' else c2)
      in c3)"

definition initParameters :: "string \<Rightarrow> nat \<Rightarrow> (string \<times> jsval) list" where
  "initParameters mediaType mediaFileSizeBytes =
     [(''command'', JStr ''INIT''), (''media_type'', JStr mediaType),
      (''total_bytes'', JNum (int mediaFileSizeBytes))]
     @ (case mediaCategory mediaType of
          None \<Rightarrow> []
        | Some c \<Rightarrow> (if c = [] then [] else [(''media_category'', JStr c)]))"

definition errMsg :: "nat \<Rightarrow> nat \<Rightarrow> string" where
  "errMsg limit got =
     ''This file is too large. Max size is '' @ dec limit @ ''B. Got: '' @ dec got @ ''B.''"

subsection \<open>The callbacks created by upload\<close>

text \<open>The callback that \<open>upload\<close> gives to \<open>_initMedia\<close>: on success it keeps the media id,
  sets \<open>chunkNumber\<close> to 0, opens the read stream and, by attaching the \<open>data\<close> listener,
  puts it in flowing mode.\<close>

definition initCallback :: "jserror option \<Rightarrow> body option \<Rightarrow> raw option \<Rightarrow> uploader \<Rightarrow> thrown + uploader" where
  "initCallback err bodyObj resp s =
     (case err of
        Some e \<Rightarrow> Inr (cb (Some e) None None s)
      | None \<Rightarrow>
          (case bodyObj of
             None \<Rightarrow> Inl TypeError
           | Some b \<Rightarrow>
               Inr (s\<lparr>mediaTmpId := media_id_string b, chunkNumber := 0,
                      streamOpen := True, flowing := True,
                      unread := f_chunks (upfile s)\<rparr>)))"

definition waitTimeOr :: "int \<Rightarrow> int option \<Rightarrow> int" where
  "waitTimeOr d w = (case w of None \<Rightarrow> d | Some n \<Rightarrow> (if n = 0 then d else n))"

definition checkStatus :: "uploader \<Rightarrow> uploader" where
  "checkStatus s = statusMedia (js_of (mediaTmpId s)) StatusCb s"

definition statusCallback :: "jserror option \<Rightarrow> body option \<Rightarrow> raw option \<Rightarrow> uploader \<Rightarrow> thrown + uploader" where
  "statusCallback err bodyObj resp s =
     (case err of
        Some e \<Rightarrow> Inr (cb (Some e) None None s)
      | None \<Rightarrow>
          (case bodyObj of
             None \<Rightarrow> Inl TypeError
           | Some b \<Rightarrow>
               (case processing_info b of
                  None \<Rightarrow> Inl TypeError
                | Some p \<Rightarrow>
                    if pi_state p = Some ''in_progress'' then
                      Inr (setTimeout (waitTimeOr 3 (check_after_secs p) * 1000)
                             (console_log (LogProgress (progress_percent p)) s))
                    else if pi_state p = Some ''failed'' then
                      (case pi_error p of
                         None \<Rightarrow> Inl TypeError
                       | Some e \<Rightarrow> Inr (cb (Some (new_Error (message e))) None None s))
                    else if pi_state p = Some ''succeeded'' then
                      Inr (cb err (Some b) resp s)
                    else Inr s)))"

definition checkAsyncFinish :: "jserror option \<Rightarrow> body option \<Rightarrow> raw option \<Rightarrow> uploader \<Rightarrow> thrown + uploader" where
  "checkAsyncFinish err bodyObj resp s =
     (case err of
        Some e \<Rightarrow> Inr (cb (Some e) None None s)
      | None \<Rightarrow>
          (let s1 = console_log (LogAsyncFinish bodyObj) s in
           case bodyObj of
             None \<Rightarrow> Inl TypeError
           | Some b \<Rightarrow>
               (case processing_info b of
                  Some p \<Rightarrow> Inr (setTimeout (waitTimeOr 5 (check_after_secs p) * 1000) s1)
                | None \<Rightarrow> Inr (cb err (Some b) resp s1))))"

text \<open>The listener of the stream's \<open>data\<close> event.\<close>

definition onData :: "chunk \<Rightarrow> uploader \<Rightarrow> thrown + uploader" where
  "onData c s =
     (let s1 = s\<lparr>flowing := False\<rparr>;
          s2 = s1\<lparr>isUploading := True\<rparr>
      in appendMedia (mediaTmpId s2) (JBase64 c) (chunkNumber s2) AppendCb s2)"

definition appendCallback :: "jserror option \<Rightarrow> body option \<Rightarrow> raw option \<Rightarrow> uploader \<Rightarrow> uploader" where
  "appendCallback err bodyObj resp s =
     (let s1 = s\<lparr>isUploading := False\<rparr> in
      case err of
        Some e \<Rightarrow> cb (Some e) None None s1
      | None \<Rightarrow>
          if isUploadComplete s1 then finalizeMedia (js_of (mediaTmpId s1)) CheckAsyncFinish s1
          else s1\<lparr>chunkNumber := chunkNumber s1 + 1, flowing := True\<rparr>)"

text \<open>The listener of the stream's \<open>end\<close> event.\<close>

definition onEnd :: "uploader \<Rightarrow> uploader" where
  "onEnd s =
     (let s1 = s\<lparr>isFileStreamEnded := True\<rparr> in
      if isUploadComplete s1 then finalizeMedia (js_of (mediaTmpId s1)) CheckAsyncFinish s1
      else s1)"

subsection \<open>initMedia and upload\<close>

text \<open>Calling a callback of the uploader with the arguments \<open>(err, bodyObj, resp)\<close>.\<close>

definition call :: "continuation \<Rightarrow> jserror option \<Rightarrow> body option \<Rightarrow> raw option \<Rightarrow> uploader \<Rightarrow> thrown + uploader" where
  "call k err bodyObj resp s =
     (case k of
        InitCb \<Rightarrow> initCallback err bodyObj resp s
      | AppendCb \<Rightarrow> Inr (appendCallback err bodyObj resp s)
      | CheckAsyncFinish \<Rightarrow> checkAsyncFinish err bodyObj resp s
      | StatusCb \<Rightarrow> statusCallback err bodyObj resp s)"

text \<open>\<open>_initMedia\<close> calls its callback itself when the file is too large, and hands it
  to the transport otherwise. A throwing \<open>fs.statSync\<close> is not caught anywhere, so it
  leaves \<open>_initMedia\<close> and \<open>upload\<close>.\<close>

definition initMedia :: "continuation \<Rightarrow> uploader \<Rightarrow> thrown + uploader" where
  "initMedia k s =
     (let mediaType = f_mime (upfile s) in
      case f_stat (upfile s) of
        None \<Rightarrow> Inl StatError
      | Some mediaFileSizeBytes \<Rightarrow>
          if mediaFileSizeBytes < maxSizeBytes mediaType then
            Inr (twit_post ''media/upload'' (initParameters mediaType mediaFileSizeBytes) k s)
          else
            call k (Some (new_Error (Some (errMsg (maxSizeBytes mediaType) mediaFileSizeBytes))))
              None None s)"

definition upload :: "mfile \<Rightarrow> thrown + uploader" where
  "upload f = initMedia InitCb (FileUploader f)"

subsection \<open>The host: which callback may run next\<close>

text \<open>
  \<open>Data\<close>: the stream, flowing and with a buffer left, emits it. \<open>End\<close>: the stream has
  handed over its last buffer and signals exhaustion, once. The host of this model may do
  so whether or not the stream is paused, so that the signal may come before or after the
  answer to the last APPEND; a host that signals \<open>end\<close> only on a flowing stream has fewer
  runs, and what holds of all runs here holds of all of its runs. \<open>Response k r\<close>: the
  transport answers an outstanding call, once, by calling its callback \<open>k\<close> with the
  arguments \<open>r\<close>. \<open>Timeout\<close>: the oldest timer fires. The stream is taken to deliver its
  buffers without a read error.
\<close>

datatype event = Data | End | Response continuation response | Timeout

definition enabled :: "event \<Rightarrow> uploader \<Rightarrow> bool" where
  "enabled ev s =
     (case ev of
        Data \<Rightarrow> streamOpen s \<and> flowing s \<and> unread s \<noteq> []
      | End \<Rightarrow> streamOpen s \<and> unread s = [] \<and> \<not> endEmitted s
      | Response k r \<Rightarrow> k \<in> set (pending s)
      | Timeout \<Rightarrow> timers s \<noteq> [])"

definition dispatch :: "continuation \<Rightarrow> response \<Rightarrow> uploader \<Rightarrow> thrown + uploader" where
  "dispatch k r s = call k (r_err r) (r_body r) (r_raw r) s"

definition handle :: "event \<Rightarrow> uploader \<Rightarrow> thrown + uploader" where
  "handle ev s =
     (case ev of
        Data \<Rightarrow> onData (hd (unread s)) (s\<lparr>unread := tl (unread s)\<rparr>)
      | End \<Rightarrow> Inr (onEnd (s\<lparr>endEmitted := True\<rparr>))
      | Response k r \<Rightarrow> dispatch k r (s\<lparr>pending := remove1 k (pending s)\<rparr>)
      | Timeout \<Rightarrow> Inr (checkStatus (s\<lparr>timers := tl (timers s)\<rparr>)))"

text \<open>One step: \<open>None\<close> when the host cannot produce the event in this state, \<open>Inl\<close> when
  the callback throws.\<close>

definition step :: "event \<Rightarrow> uploader \<Rightarrow> (thrown + uploader) option" where
  "step ev s = (if enabled ev s then Some (handle ev s) else None)"

text \<open>A thrown exception is uncaught and ends the process: nothing runs after it.\<close>

fun exec :: "event list \<Rightarrow> uploader \<Rightarrow> (thrown + uploader) option" where
  "exec [] s = Some (Inr s)"
| "exec (ev # evs) s =
     (case step ev s of
        None \<Rightarrow> None
      | Some (Inl x) \<Rightarrow> (if evs = [] then Some (Inl x) else None)
      | Some (Inr s') \<Rightarrow> exec evs s')"

definition run :: "mfile \<Rightarrow> event list \<Rightarrow> (thrown + uploader) option" where
  "run f evs =
     (case upload f of
        Inl x \<Rightarrow> (if evs = [] then Some (Inl x) else None)
      | Inr s \<Rightarrow> exec evs s)"

text \<open>No callback can run any more.\<close>

definition quiescent :: "uploader \<Rightarrow> bool" where
  "quiescent s =
     (pending s = [] \<and> timers s = []
      \<and> \<not> (streamOpen s \<and> flowing s \<and> unread s \<noteq> [])
      \<and> \<not> (streamOpen s \<and> unread s = [] \<and> \<not> endEmitted s))"

subsection \<open>Reading the transport log\<close>

definition is_cmd :: "string \<Rightarrow> request \<Rightarrow> bool" where
  "is_cmd c r = (map_of (params r) ''command'' = Some (JStr c))"

definition appends :: "uploader \<Rightarrow> request list" where
  "appends s = filter (is_cmd ''APPEND'') (sent s)"

definition finalizes :: "uploader \<Rightarrow> request list" where
  "finalizes s = filter (is_cmd ''FINALIZE'') (sent s)"

definition statuses :: "uploader \<Rightarrow> request list" where
  "statuses s = filter (is_cmd ''STATUS'') (sent s)"

definition segment_index_of :: "request \<Rightarrow> jsval option" where
  "segment_index_of r = map_of (params r) ''segment_index''"

definition media_of :: "request \<Rightarrow> jsval option" where
  "media_of r = map_of (params r) ''media''"

definition FINALIZE_request :: "uploader \<Rightarrow> request" where
  "FINALIZE_request s =
     \<lparr>meth = POST, endpoint = ''media/upload'',
      params = [(''command'', JStr ''FINALIZE''), (''media_id'', js_of (mediaTmpId s))]\<rparr>"

subsection \<open>Kinds of events\<close>

text \<open>An APPEND answered with an error; an APPEND answered without one; and the event that
  completes the join of the two signals: \<open>end\<close> while no APPEND is outstanding, or an
  APPEND answered without error after \<open>end\<close>.\<close>

definition append_failed :: "event \<Rightarrow> bool" where
  "append_failed ev = (case ev of Response k r \<Rightarrow> k = AppendCb \<and> r_err r \<noteq> None | _ \<Rightarrow> False)"

definition appends_ok :: "event list \<Rightarrow> bool" where
  "appends_ok evs = list_all (\<lambda>ev. \<not> append_failed ev) evs"

definition append_answered :: "event \<Rightarrow> bool" where
  "append_answered ev = (case ev of Response k r \<Rightarrow> k = AppendCb \<and> r_err r = None | _ \<Rightarrow> False)"

definition joins :: "event \<Rightarrow> uploader \<Rightarrow> bool" where
  "joins ev s =
     (case ev of
        End \<Rightarrow> \<not> isUploading s
      | Response k r \<Rightarrow> k = AppendCb \<and> r_err r = None \<and> isFileStreamEnded s
      | _ \<Rightarrow> False)"

subsection \<open>Invariants of the runs\<close>

text \<open>What every state of a run satisfies: at most one transport call or timer is
  outstanding, \<open>_isUploading\<close> says that an APPEND is outstanding and the stream is then
  paused, \<open>_isFileStreamEnded\<close> says that the stream has ended, FINALIZE has gone out at
  most once, and the APPEND requests so far carry the first buffers of the file under the
  indices 0, 1, 2, ...\<close>

definition coherent :: "mfile \<Rightarrow> uploader \<Rightarrow> bool" where
  "coherent f s \<longleftrightarrow>
     upfile s = f \<and>
     length (pending s) + length (timers s) \<le> 1 \<and>
     (isUploading s \<longleftrightarrow> AppendCb \<in> set (pending s)) \<and>
     (isUploading s \<longrightarrow> \<not> flowing s) \<and>
     (isFileStreamEnded s \<longleftrightarrow> endEmitted s) \<and>
     (endEmitted s \<longrightarrow> unread s = [] \<and> streamOpen s) \<and>
     (InitCb \<in> set (pending s) \<longrightarrow> \<not> streamOpen s) \<and>
     (\<not> streamOpen s \<longrightarrow>
        \<not> flowing s \<and> \<not> isUploading s \<and> appends s = [] \<and> chunkNumber s = 0) \<and>
     (CheckAsyncFinish \<in> set (pending s) \<or> StatusCb \<in> set (pending s) \<or> timers s \<noteq> []
        \<longrightarrow> finalizes s \<noteq> []) \<and>
     length (finalizes s) \<le> 1 \<and>
     (finalizes s \<noteq> [] \<longrightarrow> isFileStreamEnded s \<and> \<not> isUploading s) \<and>
     map segment_index_of (appends s) = map (\<lambda>i. Some (JNum (int i))) [0..<length (appends s)] \<and>
     map media_of (appends s) = map (\<lambda>c. Some (JBase64 c)) (take (length (appends s)) (f_chunks f)) \<and>
     (streamOpen s \<longrightarrow> unread s = drop (length (appends s)) (f_chunks f)) \<and>
     (flowing s \<longrightarrow> chunkNumber s = length (appends s)) \<and>
     (isUploading s \<longrightarrow> Suc (chunkNumber s) = length (appends s))"

text \<open>What holds as long as no APPEND has failed: the completion callback has not been
  called, or it has been called once and nothing can run any more; and once both signals
  of the join are in, FINALIZE has been sent.\<close>

definition settled :: "uploader \<Rightarrow> bool" where
  "settled s \<longleftrightarrow>
     (cbCalls s = [] \<or> (length (cbCalls s) = 1 \<and> quiescent s)) \<and>
     (isFileStreamEnded s \<and> \<not> isUploading s \<longrightarrow> finalizes s \<noteq> [])"

subsection \<open>Sample files, answers and runs\<close>

text \<open>A JPEG file of 12 MiB that the stream hands over in three buffers, an MP4 file of
  1 MiB in one buffer, an MP4 file of exactly 512 MiB, and a file that cannot be statted.\<close>

definition jpeg12 :: mfile where
  "jpeg12 = \<lparr>f_mime = ''image/jpeg'', f_stat = Some (12 * 1024 * 1024), f_chunks = [''c0'', ''c1'', ''c2'']\<rparr>"

definition clip :: mfile where
  "clip = \<lparr>f_mime = ''video/mp4'', f_stat = Some (1024 * 1024), f_chunks = [''c0'']\<rparr>"

definition huge_mp4 :: mfile where
  "huge_mp4 = \<lparr>f_mime = ''video/mp4'', f_stat = Some (512 * 1024 * 1024), f_chunks = [''c0'']\<rparr>"


text \<open>The answers of a server: INIT, FINALIZE and STATUS carry a body with the media id
  and, for media processed asynchronously, a \<open>processing_info\<close>; APPEND has an empty body;
  a failed call has only an error.\<close>

definition answer :: "body \<Rightarrow> response" where
  "answer b = \<lparr>r_err = None, r_body = Some b, r_raw = Some ''200''\<rparr>"

definition no_content :: response where
  "no_content = \<lparr>r_err = None, r_body = None, r_raw = Some ''204''\<rparr>"

definition failure :: "string \<Rightarrow> response" where
  "failure e = \<lparr>r_err = Some (TransportError e), r_body = None, r_raw = None\<rparr>"

definition media :: "pinfo option \<Rightarrow> body" where
  "media p = \<lparr>media_id_string = Some ''710511363345354753'', processing_info = p\<rparr>"

definition info :: "string \<Rightarrow> int option \<Rightarrow> pinfo" where
  "info st w = \<lparr>pi_state = Some st, check_after_secs = w, progress_percent = None, pi_error = None\<rparr>"

definition transcode_failed :: pinfo where
  "transcode_failed = (info ''failed'' None)\<lparr>pi_error := Some (PError (Some ''transcode error''))\<rparr>"

text \<open>The sample JPEG uploaded without errors, with the stream's \<open>end\<close> coming after the
  answer to the last APPEND, and with \<open>end\<close> coming while the last APPEND is outstanding.\<close>

definition end_last :: "event list" where
  "end_last = [Response InitCb (answer (media None)),
               Data, Response AppendCb no_content, Data, Response AppendCb no_content,
               Data, Response AppendCb no_content, End]"

definition end_first :: "event list" where
  "end_first = [Response InitCb (answer (media None)),
                Data, Response AppendCb no_content, Data, Response AppendCb no_content,
                Data, End, Response AppendCb no_content]"

text \<open>The events of an upload in which every buffer is sent and answered before the next
  one is read, and \<open>end\<close> comes last.\<close>

definition straight :: "response \<Rightarrow> response \<Rightarrow> chunk list \<Rightarrow> event list" where
  "straight r0 ra cs = Response InitCb r0 # concat (map (\<lambda>c. [Data, Response AppendCb ra]) cs) @ [End]"

text \<open>The events of the one-buffer upload up to the moment FINALIZE is outstanding, and up
  to the moment the first STATUS request is outstanding.\<close>

definition to_finalize :: "event list" where
  "to_finalize = [Response InitCb (answer (media None)), Data, Response AppendCb no_content, End]"

definition to_status :: "event list" where
  "to_status = to_finalize @ [Response CheckAsyncFinish (answer (media (Some (info ''pending'' None)))), Timeout]"

text \<open>The only APPEND fails, and the stream's \<open>end\<close> is signalled afterwards.\<close>

definition late_end :: "event list" where
  "late_end = [Response InitCb (answer (media None)), Data, Response AppendCb (failure ''ECONNRESET''),
               End, Response CheckAsyncFinish (answer (media None))]"

section \<open>The invariants hold in every run\<close>

lemma single_pending:
  "length p + length (t :: int list) \<le> 1 \<Longrightarrow> k \<in> set p \<Longrightarrow> p = [k] \<and> t = []"
  by (cases p; cases t) auto

lemma no_pending:
  "InitCb \<notin> set p \<Longrightarrow> AppendCb \<notin> set p \<Longrightarrow> CheckAsyncFinish \<notin> set p \<Longrightarrow> StatusCb \<notin> set p \<Longrightarrow> p = []"
proof (cases p)
  case (Cons k ks)
  assume "InitCb \<notin> set p" "AppendCb \<notin> set p" "CheckAsyncFinish \<notin> set p" "StatusCb \<notin> set p"
  with Cons show ?thesis by (cases k) auto
qed simp

lemma coherent_upload: "upload f = Inr s \<Longrightarrow> coherent f s"
  by (auto simp: upload_def initMedia_def FileUploader_def call_def initCallback_def cb_def
      twit_post_def coherent_def appends_def finalizes_def is_cmd_def initParameters_def Let_def
      split: option.splits if_splits)

lemma coherent_Data:
  assumes "coherent f s" "step Data s = Some (Inr s')"
  shows "coherent f s'"
proof -
  from assms(2) have en: "streamOpen s" "flowing s" "unread s \<noteq> []"
    by (auto simp: step_def enabled_def split: if_splits)
  with assms(1) have nu: "\<not> isUploading s" "\<not> endEmitted s" "finalizes s = []"
    "chunkNumber s = length (appends s)" "unread s = drop (length (appends s)) (f_chunks f)"
    by (auto simp: coherent_def)
  with assms(1) en have p: "pending s = []" "timers s = []"
    by (auto simp: coherent_def intro: no_pending)
  from nu en have lt: "length (appends s) < length (f_chunks f)" by auto
  obtain m where m: "mediaTmpId s = Some m"
    using assms(2) en by (auto simp: step_def enabled_def handle_def onData_def appendMedia_def Let_def split: option.splits)
  have s': "s' = twit_post ''media/upload''
                 [(''command'', JStr ''APPEND''), (''media_id'', JStr m),
                  (''segment_index'', JNum (int (chunkNumber s))), (''media'', JBase64 (hd (unread s)))] AppendCb
                  (s\<lparr>unread := tl (unread s), flowing := False, isUploading := True\<rparr>)"
    using assms(2) en m by (auto simp: step_def enabled_def handle_def onData_def appendMedia_def Let_def)
  show ?thesis
    using assms(1) en nu p lt
    unfolding s'
    by (simp add: coherent_def twit_post_def appends_def finalizes_def is_cmd_def segment_index_of_def media_of_def
        take_Suc_conv_app_nth hd_drop_conv_nth drop_Suc tl_drop)
qed

lemma coherent_End:
  assumes "coherent f s" "step End s = Some (Inr s')"
  shows "coherent f s'"
proof -
  from assms(2) have en: "streamOpen s" "unread s = []" "\<not> endEmitted s"
    by (auto simp: step_def enabled_def split: if_splits)
  with assms(1) have nf: "finalizes s = []" "\<not> isFileStreamEnded s"
    by (auto simp: coherent_def)
  have s': "s' = onEnd (s\<lparr>endEmitted := True\<rparr>)"
    using assms(2) en by (auto simp: step_def enabled_def handle_def)
  show ?thesis
  proof (cases "isUploading s")
    case True
    then show ?thesis
      using assms(1) en nf unfolding s'
      by (clarsimp simp: coherent_def onEnd_def isUploadComplete_def Let_def appends_def finalizes_def)
  next
    case False
    with assms(1) en nf have p: "pending s = []" "timers s = []"
      by (auto simp: coherent_def intro: no_pending)
    show ?thesis
      using assms(1) en nf False p unfolding s'
      by (simp add: coherent_def onEnd_def isUploadComplete_def Let_def finalizeMedia_def twit_post_def
          appends_def finalizes_def is_cmd_def)
  qed
qed

lemma coherent_Timeout:
  assumes "coherent f s" "step Timeout s = Some (Inr s')"
  shows "coherent f s'"
proof -
  from assms(2) have en: "timers s \<noteq> []"
    by (auto simp: step_def enabled_def split: if_splits)
  with assms(1) have p: "pending s = []" "length (timers s) = 1"
    by (cases "timers s"; auto simp: coherent_def)+
  then have tl: "tl (timers s) = []" by (cases "timers s") auto
  have s': "s' = checkStatus (s\<lparr>timers := tl (timers s)\<rparr>)"
    using assms(2) en by (auto simp: step_def enabled_def handle_def)
  show ?thesis
    using assms(1) en p tl unfolding s'
    by (clarsimp simp: coherent_def checkStatus_def statusMedia_def twit_get_def
          appends_def finalizes_def is_cmd_def)
qed

lemma response_shape:
  assumes "coherent f s" "step (Response k r) s = Some (Inr s')"
  shows "pending s = [k]" "timers s = []" "dispatch k r (s\<lparr>pending := []\<rparr>) = Inr s'"
proof -
  from assms(2) have en: "k \<in> set (pending s)"
    by (auto simp: step_def enabled_def split: if_splits)
  with assms(1) show p: "pending s = [k]" "timers s = []"
    using single_pending[of "pending s" "timers s" k] by (auto simp: coherent_def)
  show "dispatch k r (s\<lparr>pending := []\<rparr>) = Inr s'"
    using assms(2) en p by (auto simp: step_def enabled_def handle_def)
qed

lemma coherent_InitCb:
  assumes "coherent f s" "step (Response InitCb r) s = Some (Inr s')"
  shows "coherent f s'"
proof -
  note sh = response_shape[OF assms]
  from assms(1) sh(1) have so: "\<not> streamOpen s" by (simp add: coherent_def)
  show ?thesis
  proof (cases "r_err r")
    case (Some e)
    then have "s' = cb (Some e) None None (s\<lparr>pending := []\<rparr>)"
      using sh(3) by (simp add: dispatch_def call_def initCallback_def)
    then show ?thesis using assms(1) sh(1,2) so
      by (clarsimp simp: coherent_def cb_def appends_def finalizes_def)
  next
    case None
    then obtain b where b: "r_body r = Some b"
      using sh(3) by (cases "r_body r") (auto simp: dispatch_def call_def initCallback_def)
    with None have "s' = s\<lparr>pending := [], mediaTmpId := media_id_string b, chunkNumber := 0,
                      streamOpen := True, flowing := True, unread := f_chunks (upfile s)\<rparr>"
      using sh(3) by (simp add: dispatch_def call_def initCallback_def)
    then show ?thesis using assms(1) sh(1,2) so
      by (clarsimp simp: coherent_def appends_def finalizes_def)
  qed
qed

lemma coherent_AppendCb:
  assumes "coherent f s" "step (Response AppendCb r) s = Some (Inr s')"
  shows "coherent f s'"
proof -
  note sh = response_shape[OF assms]
  from assms(1) sh(1) have u: "isUploading s" "finalizes s = []" "streamOpen s" "\<not> flowing s"
    by (auto simp: coherent_def)
  have s': "s' = appendCallback (r_err r) (r_body r) (r_raw r) (s\<lparr>pending := []\<rparr>)"
    using sh(3) by (simp add: dispatch_def call_def)
  show ?thesis
  proof (cases "r_err r")
    case (Some e)
    then show ?thesis using assms(1) sh(1,2) u unfolding s'
      by (clarsimp simp: coherent_def appendCallback_def cb_def appends_def finalizes_def Let_def)
  next
    case None
    show ?thesis
    proof (cases "isFileStreamEnded s")
      case True
      then show ?thesis using None assms(1) sh(1,2) u unfolding s'
        by (clarsimp simp: coherent_def appendCallback_def isUploadComplete_def finalizeMedia_def
            twit_post_def appends_def finalizes_def is_cmd_def Let_def)
    next
      case False
      then show ?thesis using None assms(1) sh(1,2) u unfolding s'
        by (clarsimp simp: coherent_def appendCallback_def isUploadComplete_def
            appends_def finalizes_def Let_def)
    qed
  qed
qed

lemma poll_frame:
  assumes "checkAsyncFinish e b rw s0 = Inr s' \<or> statusCallback e b rw s0 = Inr s'"
  shows "upfile s' = upfile s0 \<and> pending s' = pending s0 \<and> sent s' = sent s0
       \<and> isUploading s' = isUploading s0 \<and> isFileStreamEnded s' = isFileStreamEnded s0
       \<and> flowing s' = flowing s0 \<and> streamOpen s' = streamOpen s0 \<and> unread s' = unread s0
       \<and> endEmitted s' = endEmitted s0 \<and> chunkNumber s' = chunkNumber s0
       \<and> mediaTmpId s' = mediaTmpId s0
       \<and> (timers s' = timers s0 \<or> (\<exists>d. timers s' = timers s0 @ [d]))"
  using assms
  by (auto simp: checkAsyncFinish_def statusCallback_def cb_def console_log_def setTimeout_def Let_def
      split: option.splits if_splits)

lemma coherent_poll:
  assumes "coherent f s" "k = CheckAsyncFinish \<or> k = StatusCb" "step (Response k r) s = Some (Inr s')"
  shows "coherent f s'"
proof -
  note sh = response_shape[OF assms(1,3)]
  from assms(1,2) sh(1) have fin: "finalizes s \<noteq> []" by (auto simp: coherent_def)
  from assms(2) sh(3)
  have "checkAsyncFinish (r_err r) (r_body r) (r_raw r) (s\<lparr>pending := []\<rparr>) = Inr s'
      \<or> statusCallback (r_err r) (r_body r) (r_raw r) (s\<lparr>pending := []\<rparr>) = Inr s'"
    by (auto simp: dispatch_def call_def)
  from poll_frame[OF this] have fr:
    "upfile s' = upfile s" "pending s' = []" "sent s' = sent s"
    "isUploading s' = isUploading s" "isFileStreamEnded s' = isFileStreamEnded s"
    "flowing s' = flowing s" "streamOpen s' = streamOpen s" "unread s' = unread s"
    "endEmitted s' = endEmitted s" "chunkNumber s' = chunkNumber s"
    "timers s' = timers s \<or> (\<exists>d. timers s' = timers s @ [d])"
    by simp_all
  from fr(11) sh(2) have t: "length (timers s') \<le> 1" by auto
  show ?thesis
    using assms(1) fin t sh(1) fr(1-10)
    by (clarsimp simp: coherent_def appends_def finalizes_def)
qed

lemma coherent_Response:
  assumes "coherent f s" "step (Response k r) s = Some (Inr s')"
  shows "coherent f s'"
  using assms by (cases k) (auto intro: coherent_InitCb coherent_AppendCb coherent_poll)

lemma coherent_step: "coherent f s \<Longrightarrow> step ev s = Some (Inr s') \<Longrightarrow> coherent f s'"
  by (cases ev) (auto intro: coherent_Data coherent_End coherent_Timeout coherent_Response)

lemma exec_snoc:
  "exec (evs @ [ev]) s =
     (case exec evs s of
        None \<Rightarrow> None
      | Some (Inl x) \<Rightarrow> None
      | Some (Inr s') \<Rightarrow> (case step ev s' of None \<Rightarrow> None | Some y \<Rightarrow> Some y))"
  by (induction evs arbitrary: s) (auto split: option.splits sum.splits)

lemma coherent_exec: "coherent f s \<Longrightarrow> exec evs s = Some (Inr s') \<Longrightarrow> coherent f s'"
proof (induction evs arbitrary: s' rule: rev_induct)
  case Nil
  then show ?case by simp
next
  case (snoc ev evs)
  then show ?case
    by (auto simp: exec_snoc split: option.splits sum.splits intro: coherent_step)
qed

lemma coherent_run: "run f evs = Some (Inr s) \<Longrightarrow> coherent f s"
  by (auto simp: run_def split: sum.splits if_splits intro: coherent_exec coherent_upload)

lemma quiescent_iff: "quiescent s \<longleftrightarrow> (\<forall>ev. step ev s = None)"
proof
  assume q: "quiescent s"
  show "\<forall>ev. step ev s = None"
  proof
    fix ev show "step ev s = None"
      using q by (cases ev) (auto simp: quiescent_def step_def enabled_def)
  qed
next
  assume a: "\<forall>ev. step ev s = None"
  have "step Data s = None" "step End s = None" "step Timeout s = None"
    using a by blast+
  then have d: "timers s = []" "\<not> (streamOpen s \<and> flowing s \<and> unread s \<noteq> [])"
     "\<not> (streamOpen s \<and> unread s = [] \<and> \<not> endEmitted s)"
    by (auto simp: step_def enabled_def split: if_splits)
  have "k \<notin> set (pending s)" for k
    using a[rule_format, of "Response k \<lparr>r_err = None, r_body = None, r_raw = None\<rparr>"]
    by (auto simp: step_def enabled_def split: if_splits)
  then have "pending s = []" by (cases "pending s") auto
  with d
  show "quiescent s" by (simp add: quiescent_def)
qed

lemma quiescent_exec: "quiescent s \<Longrightarrow> evs \<noteq> [] \<Longrightarrow> exec evs s = None"
  by (cases evs) (auto simp: quiescent_iff)

lemma settled_upload: "upload f = Inr s \<Longrightarrow> settled s"
  by (auto simp: upload_def initMedia_def FileUploader_def call_def initCallback_def cb_def
      twit_post_def settled_def quiescent_def Let_def
      split: option.splits if_splits)

lemma settled_step:
  assumes "coherent f s" "settled s" "step ev s = Some (Inr s')" "\<not> append_failed ev"
  shows "settled s'"
proof -
  from assms(3) have nq: "\<not> quiescent s" by (auto simp: quiescent_iff)
  with assms(2) have c: "cbCalls s = []" and fin: "isFileStreamEnded s \<and> \<not> isUploading s \<longrightarrow> finalizes s \<noteq> []"
    by (auto simp: settled_def)
  have i': "coherent f s'" using assms(1,3) by (rule coherent_step)
  show ?thesis
  proof (cases ev)
    case Data
    then show ?thesis using assms(1,3) c
      by (auto simp: settled_def step_def enabled_def handle_def onData_def appendMedia_def twit_post_def
          Let_def split: if_splits option.splits)
  next
    case End
    then show ?thesis using assms(1,3) c
      by (auto simp: settled_def step_def enabled_def handle_def onEnd_def isUploadComplete_def
          finalizeMedia_def twit_post_def finalizes_def is_cmd_def
          Let_def split: if_splits)
  next
    case Timeout
    then show ?thesis using assms(1,3) c fin
      by (auto simp: settled_def step_def enabled_def handle_def checkStatus_def statusMedia_def
          twit_get_def finalizes_def is_cmd_def split: if_splits)
  next
    case (Response k r)
    note sh = response_shape[OF assms(1) assms(3)[unfolded Response]]
    show ?thesis
    proof (cases k)
      case InitCb
      with assms(1) sh(1) have "\<not> streamOpen s" "\<not> isFileStreamEnded s" by (auto simp: coherent_def)
      then show ?thesis using InitCb sh c
        by (auto simp: settled_def dispatch_def call_def initCallback_def cb_def quiescent_def
            finalizes_def split: option.splits)
    next
      case AppendCb
      with assms(4) Response have ne: "r_err r = None" by (simp add: append_failed_def)
      then show ?thesis using AppendCb sh c
        by (auto simp: settled_def dispatch_def call_def appendCallback_def isUploadComplete_def
            finalizeMedia_def twit_post_def finalizes_def is_cmd_def Let_def split: if_splits)
    next
      case CheckAsyncFinish
      with assms(1) sh(1) have e: "finalizes s \<noteq> []" "endEmitted s" "unread s = []" "streamOpen s"
        by (auto simp: coherent_def)
      then show ?thesis using CheckAsyncFinish sh c
        by (auto simp: settled_def dispatch_def call_def checkAsyncFinish_def cb_def quiescent_def
            console_log_def setTimeout_def finalizes_def Let_def split: option.splits)
    next
      case StatusCb
      with assms(1) sh(1) have e: "finalizes s \<noteq> []" "endEmitted s" "unread s = []" "streamOpen s"
        by (auto simp: coherent_def)
      then show ?thesis using StatusCb sh c
        by (auto simp: settled_def dispatch_def call_def statusCallback_def cb_def quiescent_def
            console_log_def setTimeout_def finalizes_def Let_def split: option.splits if_splits)
    qed
  qed
qed

lemma settled_exec:
  "coherent f s \<Longrightarrow> settled s \<Longrightarrow> appends_ok evs \<Longrightarrow> exec evs s = Some (Inr s') \<Longrightarrow> settled s'"
proof (induction evs arbitrary: s)
  case Nil
  then show ?case by simp
next
  case (Cons ev evs)
  from Cons.prems(4) obtain s1 where s1: "step ev s = Some (Inr s1)" "exec evs s1 = Some (Inr s')"
    by (auto split: option.splits sum.splits if_splits)
  from Cons.prems(3) have ok: "\<not> append_failed ev" "appends_ok evs"
    by (simp_all add: appends_ok_def)
  have "coherent f s1" using Cons.prems(1) s1(1) by (rule coherent_step)
  moreover have "settled s1" using Cons.prems(1,2) s1(1) ok(1) by (rule settled_step)
  ultimately show ?case using ok(2) s1(2) by (rule Cons.IH)
qed

lemma settled_run: "run f evs = Some (Inr s) \<Longrightarrow> appends_ok evs \<Longrightarrow> settled s"
  by (auto simp: run_def split: sum.splits if_splits intro: settled_exec coherent_upload settled_upload)

section \<open>Sample runs\<close>

lemma maxSizeBytes_eq:
  "maxSizeBytes m = (if m = ''video/mp4'' then 536870912 else 15728640)"
  by (simp add: maxSizeBytes_def videoMime_def MAX_VIDEO_SIZE_BYTES_def MAX_FILE_SIZE_BYTES_def)

lemma upload_init:
  "f_stat f = Some n \<Longrightarrow> n < maxSizeBytes (f_mime f) \<Longrightarrow>
   upload f = Inr ((FileUploader f)\<lparr>sent := [\<lparr>meth = POST, endpoint = ''media/upload'', params = initParameters (f_mime f) n\<rparr>], pending := [InitCb]\<rparr>)"
  by (simp add: upload_def initMedia_def FileUploader_def twit_post_def)

lemmas model_defs =
  run_def upload_def initMedia_def FileUploader_def call_def initCallback_def cb_def
  twit_post_def twit_get_def console_log_def setTimeout_def new_Error_def js_of_def
  isUploadComplete_def statusMedia_def finalizeMedia_def appendMedia_def
  maxSizeBytes_eq initParameters_def mediaCategory_def imageMime_def animatedGifMime_def videoMime_def
  waitTimeOr_def checkStatus_def statusCallback_def checkAsyncFinish_def onData_def
  appendCallback_def onEnd_def enabled_def dispatch_def handle_def step_def Let_def

lemmas sample_defs = clip_def answer_def no_content_def failure_def media_def info_def to_finalize_def


lemma clip_polling:
  "\<exists>s. run clip to_status = Some (Inr s) \<and> pending s = [StatusCb] \<and> cbCalls s = []"
  by (simp add: model_defs sample_defs to_status_def)

lemma to_status_ok: "appends_ok to_status"
  by (simp add: appends_ok_def append_failed_def to_status_def sample_defs)

lemma jpeg12_end_last:
  "\<exists>s. run jpeg12 end_last = Some (Inr s) \<and> isFileStreamEnded s \<and> \<not> isUploading s"
  by (simp add: model_defs sample_defs jpeg12_def end_last_def)

lemma jpeg12_end_first:
  "\<exists>s. run jpeg12 end_first = Some (Inr s) \<and> isFileStreamEnded s \<and> \<not> isUploading s"
  by (simp add: model_defs sample_defs jpeg12_def end_first_def)

section \<open>The INIT request\<close>

text \<open>
  Claim C9. When the file is small enough for INIT to be sent, \<open>upload\<close> sends exactly one
  request, a POST to \<open>media/upload\<close>, whose parameters always hold \<open>command = INIT\<close>, the
  MIME type as \<open>media_type\<close> and the file size as \<open>total_bytes\<close>. Its \<open>media_category\<close> is
  \<open>tweet_image\<close> exactly for image/png, image/jpeg and image/webp, \<open>tweet_gif\<close> exactly for
  image/gif and \<open>tweet_video\<close> exactly for video/mp4; for every other MIME type the key
  \<open>media_category\<close> is not among the parameters at all. No other key is ever sent, and no
  key twice.
\<close>

theorem init_media_category:
  assumes "f_stat f = Some n" and "n < maxSizeBytes (f_mime f)"
  shows "\<exists>s ps. upload f = Inr s
           \<and> sent s = [\<lparr>meth = POST, endpoint = ''media/upload'', params = ps\<rparr>]
           \<and> map_of ps ''command'' = Some (JStr ''INIT'')
           \<and> map_of ps ''media_type'' = Some (JStr (f_mime f))
           \<and> map_of ps ''total_bytes'' = Some (JNum (int n))
           \<and> (map_of ps ''media_category'' = Some (JStr ''tweet_image'')
                \<longleftrightarrow> f_mime f \<in> {''image/png'', ''image/jpeg'', ''image/webp''})
           \<and> (map_of ps ''media_category'' = Some (JStr ''tweet_gif'') \<longleftrightarrow> f_mime f = ''image/gif'')
           \<and> (map_of ps ''media_category'' = Some (JStr ''tweet_video'') \<longleftrightarrow> f_mime f = ''video/mp4'')
           \<and> (f_mime f \<notin> {''image/png'', ''image/jpeg'', ''image/webp'', ''image/gif'', ''video/mp4''}
                \<longrightarrow> ''media_category'' \<notin> fst ` set ps)
           \<and> fst ` set ps \<subseteq> {''command'', ''media_type'', ''total_bytes'', ''media_category''}
           \<and> distinct (map fst ps)"
proof -
  let ?ps = "initParameters (f_mime f) n"
  have 1: "map_of ?ps ''command'' = Some (JStr ''INIT'')"
    "map_of ?ps ''media_type'' = Some (JStr (f_mime f))"
    "map_of ?ps ''total_bytes'' = Some (JNum (int n))"
    by (simp_all add: initParameters_def)
  have 2: "map_of ?ps ''media_category'' = Some (JStr ''tweet_image'')
                \<longleftrightarrow> f_mime f \<in> {''image/png'', ''image/jpeg'', ''image/webp''}"
    by (auto simp: initParameters_def mediaCategory_def imageMime_def animatedGifMime_def videoMime_def)
  have 3: "map_of ?ps ''media_category'' = Some (JStr ''tweet_gif'') \<longleftrightarrow> f_mime f = ''image/gif''"
    by (auto simp: initParameters_def mediaCategory_def imageMime_def animatedGifMime_def videoMime_def)
  have 4: "map_of ?ps ''media_category'' = Some (JStr ''tweet_video'') \<longleftrightarrow> f_mime f = ''video/mp4''"
    by (auto simp: initParameters_def mediaCategory_def imageMime_def animatedGifMime_def videoMime_def)
  have 5: "f_mime f \<notin> {''image/png'', ''image/jpeg'', ''image/webp'', ''image/gif'', ''video/mp4''}
                \<longrightarrow> ''media_category'' \<notin> fst ` set ?ps"
    by (auto simp: initParameters_def mediaCategory_def imageMime_def animatedGifMime_def videoMime_def)
  have 6: "fst ` set ?ps \<subseteq> {''command'', ''media_type'', ''total_bytes'', ''media_category''}"
    "distinct (map fst ?ps)"
    by (auto simp: initParameters_def mediaCategory_def Let_def split: option.splits)
  show ?thesis
    using upload_init[OF assms] 1 2 3 4 5 6 by simp
qed

theorem init_media_category_witness:
  "\<exists>s ps. upload jpeg12 = Inr s
     \<and> sent s = [\<lparr>meth = POST, endpoint = ''media/upload'', params = ps\<rparr>]
     \<and> map_of ps ''media_category'' = Some (JStr ''tweet_image'')
     \<and> map_of ps ''total_bytes'' = Some (JNum 12582912)"
proof -
  have a: "f_stat jpeg12 = Some 12582912" by (simp add: jpeg12_def)
  have b: "12582912 < maxSizeBytes (f_mime jpeg12)" by (simp add: jpeg12_def maxSizeBytes_eq)
  have c: "f_mime jpeg12 \<in> {''image/png'', ''image/jpeg'', ''image/webp''}" by (simp add: jpeg12_def)
  from init_media_category[OF a b] c show ?thesis by fastforce
qed

section \<open>Files that are refused\<close>

lemma dec_digits: "set (dec n) \<subseteq> set ''0123456789''"
proof (induction n rule: dec.induct)
  case (1 n)
  have d: "k < 10 \<Longrightarrow> ''0123456789'' ! k \<in> set ''0123456789''" for k
    by (rule nth_mem) simp
  show ?case
  proof (cases "n < 10")
    case True
    then show ?thesis using d[of n] by (subst dec.simps) simp
  next
    case False
    then show ?thesis using 1 d[of "n mod 10"] by (subst dec.simps) simp
  qed
qed

lemma dec_nonempty: "dec n \<noteq> []"
  by (subst dec.simps) simp

lemma digit_inj: "i < 10 \<Longrightarrow> j < 10 \<Longrightarrow> ''0123456789'' ! i = ''0123456789'' ! j \<Longrightarrow> i = j"
  by (subst (asm) nth_eq_iff_index_eq) simp_all

lemma dec_inj: "dec n = dec m \<Longrightarrow> n = m"
proof (induction n arbitrary: m rule: dec.induct)
  case (1 n)
  show ?case
  proof (cases "n < 10")
    case True
    with 1(2) have e: "[''0123456789'' ! n] = dec m" by (subst (asm) dec.simps) simp
    show ?thesis
    proof (cases "m < 10")
      case m: True
      with e have "''0123456789'' ! n = ''0123456789'' ! m" by (subst (asm) dec.simps) simp
      with True m show ?thesis by (rule digit_inj)
    next
      case False
      with e have "[''0123456789'' ! n] = dec (m div 10) @ [''0123456789'' ! (m mod 10)]"
        by (subst (asm) dec.simps) simp
      then show ?thesis using dec_nonempty[of "m div 10"] by (cases "dec (m div 10)") auto
    qed
  next
    case False
    with 1(2) have e: "dec (n div 10) @ [''0123456789'' ! (n mod 10)] = dec m"
      by (subst (asm) dec.simps) simp
    show ?thesis
    proof (cases "m < 10")
      case True
      with e have "dec (n div 10) @ [''0123456789'' ! (n mod 10)] = [''0123456789'' ! m]"
        by (subst (asm) (2) dec.simps) simp
      then show ?thesis using dec_nonempty[of "n div 10"] by (cases "dec (n div 10)") auto
    next
      case m: False
      with e have "dec (n div 10) @ [''0123456789'' ! (n mod 10)] = dec (m div 10) @ [''0123456789'' ! (m mod 10)]"
        by (subst (asm) (2) dec.simps) simp
      then have a: "dec (n div 10) = dec (m div 10)" and b: "''0123456789'' ! (n mod 10) = ''0123456789'' ! (m mod 10)"
        by simp_all
      from 1(1)[OF False a] have "n div 10 = m div 10" .
      moreover from b have "n mod 10 = m mod 10" by (intro digit_inj) simp_all
      ultimately show ?thesis by (metis div_mult_mod_eq)
    qed
  qed
qed

lemma errMsg_inj:
  assumes "errMsg l g = errMsg l' g'"
  shows "l = l' \<and> g = g'"
proof -
  have nb: "CHR ''B'' \<notin> set (dec k)" for k using dec_digits[of k] by auto
  from assms have "dec l @ CHR ''B'' # (''. Got: '' @ dec g @ ''B.'')
                 = dec l' @ CHR ''B'' # (''. Got: '' @ dec g' @ ''B.'')"
    by (simp add: errMsg_def)
  then have "dec l = dec l' \<and> ''. Got: '' @ dec g @ ''B.'' = ''. Got: '' @ dec g' @ ''B.''"
    using nb by (simp add: append_Cons_eq_iff)
  then show ?thesis by (auto dest: dec_inj)
qed

lemma upload_oversize:
  "f_stat f = Some n \<Longrightarrow> maxSizeBytes (f_mime f) \<le> n \<Longrightarrow>
   upload f = Inr ((FileUploader f)\<lparr>cbCalls := [CbCall (Some (Error (errMsg (maxSizeBytes (f_mime f)) n))) None None]\<rparr>)"
  by (simp add: upload_def initMedia_def FileUploader_def call_def initCallback_def cb_def new_Error_def)

lemma run_quiescent:
  assumes "upload f = Inr s" "quiescent s" "evs \<noteq> []"
  shows "run f evs = None"
  using assms by (simp add: run_def quiescent_exec)

text \<open>
  Claim C3. When the size of the file is at least the ceiling for its MIME type (512 MiB
  for video/mp4, 15 MiB for everything else), \<open>upload\<close> returns after calling the
  completion callback once, with an error and nothing else; no request has been handed to
  the transport, none is outstanding, and no event can follow, so the callback is never
  called again and nothing is ever sent. The error's message is built from the ceiling and
  the size, and determines both.
\<close>

theorem oversize_rejected:
  assumes "f_stat f = Some n" and "maxSizeBytes (f_mime f) \<le> n"
  shows "(\<exists>s. upload f = Inr s
            \<and> cbCalls s = [CbCall (Some (Error (errMsg (maxSizeBytes (f_mime f)) n))) None None]
            \<and> sent s = [] \<and> pending s = [] \<and> timers s = [])
       \<and> (\<forall>evs. evs \<noteq> [] \<longrightarrow> run f evs = None)
       \<and> maxSizeBytes (f_mime f) = (if f_mime f = ''video/mp4'' then 512 * 1024 * 1024 else 15 * 1024 * 1024)
       \<and> (\<forall>l g. errMsg l g = errMsg (maxSizeBytes (f_mime f)) n \<longrightarrow> l = maxSizeBytes (f_mime f) \<and> g = n)"
proof -
  note u = upload_oversize[OF assms]
  have q: "quiescent ((FileUploader f)\<lparr>cbCalls := [CbCall (Some (Error (errMsg (maxSizeBytes (f_mime f)) n))) None None]\<rparr>)"
    by (simp add: quiescent_def FileUploader_def)
  have "\<forall>evs. evs \<noteq> [] \<longrightarrow> run f evs = None"
    using run_quiescent[OF u q] by blast
  moreover have "\<exists>s. upload f = Inr s
            \<and> cbCalls s = [CbCall (Some (Error (errMsg (maxSizeBytes (f_mime f)) n))) None None]
            \<and> sent s = [] \<and> pending s = [] \<and> timers s = []"
    using u by (simp add: FileUploader_def)
  moreover have "\<forall>l g. errMsg l g = errMsg (maxSizeBytes (f_mime f)) n \<longrightarrow> l = maxSizeBytes (f_mime f) \<and> g = n"
    using errMsg_inj by blast
  ultimately show ?thesis by (simp add: maxSizeBytes_eq)
qed

theorem oversize_rejected_witness:
  "\<exists>s. upload huge_mp4 = Inr s
      \<and> cbCalls s = [CbCall (Some (Error ''This file is too large. Max size is 536870912B. Got: 536870912B.'')) None None]
      \<and> sent s = []"
proof -
  have a: "f_stat huge_mp4 = Some 536870912" by (simp add: huge_mp4_def)
  have b: "maxSizeBytes (f_mime huge_mp4) \<le> 536870912" by (simp add: huge_mp4_def maxSizeBytes_eq)
  have c: "errMsg (maxSizeBytes (f_mime huge_mp4)) 536870912
           = ''This file is too large. Max size is 536870912B. Got: 536870912B.''"
    by (simp add: huge_mp4_def maxSizeBytes_eq errMsg_def dec.simps)
  from oversize_rejected[OF a b] show ?thesis unfolding c by blast
qed




section \<open>Streaming: APPEND and FINALIZE\<close>

lemma finalizes_step:
  assumes "coherent f s" "step ev s = Some (Inr s')"
  shows "finalizes s' = finalizes s @ (if joins ev s then [FINALIZE_request s] else [])"
proof (cases ev)
  case Data
  then show ?thesis using assms(2)
    by (auto simp: step_def enabled_def handle_def onData_def appendMedia_def twit_post_def
        finalizes_def is_cmd_def joins_def Let_def split: if_splits option.splits)
next
  case End
  then show ?thesis using assms(2)
    by (auto simp: step_def enabled_def handle_def onEnd_def isUploadComplete_def finalizeMedia_def
        twit_post_def finalizes_def is_cmd_def joins_def FINALIZE_request_def Let_def split: if_splits)
next
  case Timeout
  then show ?thesis using assms(2)
    by (auto simp: step_def enabled_def handle_def checkStatus_def statusMedia_def twit_get_def
        finalizes_def is_cmd_def joins_def split: if_splits)
next
  case (Response k r)
  note sh = response_shape[OF assms(1) assms(2)[unfolded Response]]
  show ?thesis
  proof (cases k)
    case InitCb
    then show ?thesis using sh(3) Response
      by (auto simp: dispatch_def call_def initCallback_def cb_def finalizes_def joins_def
          split: option.splits)
  next
    case AppendCb
    then show ?thesis using sh(3) Response
      by (auto simp: dispatch_def call_def appendCallback_def isUploadComplete_def finalizeMedia_def
          twit_post_def cb_def finalizes_def is_cmd_def joins_def FINALIZE_request_def Let_def
          split: option.splits if_splits)
  next
    case CheckAsyncFinish
    then show ?thesis using poll_frame[of "r_err r" "r_body r" "r_raw r" "s\<lparr>pending := []\<rparr>" s'] sh(3) Response
      by (simp add: dispatch_def call_def finalizes_def joins_def)
  next
    case StatusCb
    then show ?thesis using poll_frame[of "r_err r" "r_body r" "r_raw r" "s\<lparr>pending := []\<rparr>" s'] sh(3) Response
      by (simp add: dispatch_def call_def finalizes_def joins_def)
  qed
qed

lemma at_finalize:
  assumes "coherent f s" "finalizes s \<noteq> []"
  shows "\<not> isUploading s" "isFileStreamEnded s" "AppendCb \<notin> set (pending s)" "unread s = []"
    "length (finalizes s) = 1" "length (appends s) = length (f_chunks f)"
proof -
  from assms show a: "\<not> isUploading s" "isFileStreamEnded s" "AppendCb \<notin> set (pending s)" "unread s = []"
    by (auto simp: coherent_def)
  from assms show "length (finalizes s) = 1" by (cases "finalizes s") (auto simp: coherent_def)
  from assms a have "drop (length (appends s)) (f_chunks f) = []"
    "length (map media_of (appends s)) = length (take (length (appends s)) (f_chunks f))"
    by (auto simp: coherent_def)
  then show "length (appends s) = length (f_chunks f)" by simp
qed

text \<open>
  Claim C1. In every run FINALIZE has been sent at most once. A step sends it exactly when
  it is the later of the two events of the join: the stream's \<open>end\<close> arriving while no
  APPEND is outstanding, or the successful answer to an APPEND arriving after \<open>end\<close>; no
  other step sends it. Right after that step \<open>_isUploading\<close> is false and
  \<open>_isFileStreamEnded\<close> is true, no APPEND is outstanding, the stream has no buffer left,
  and the request is the first FINALIZE of the run. Once the stream has ended and no APPEND
  is outstanding, in a run in which no APPEND failed, FINALIZE has been sent exactly once.
\<close>

theorem finalize_once:
  assumes "run f evs = Some (Inr s)"
  shows "length (finalizes s) \<le> 1
       \<and> (\<forall>ev s'. step ev s = Some (Inr s') \<longrightarrow>
             (finalizes s' \<noteq> finalizes s) = joins ev s
           \<and> (joins ev s \<longrightarrow>
                 finalizes s = [] \<and> finalizes s' = [FINALIZE_request s]
               \<and> \<not> isUploading s' \<and> isFileStreamEnded s'
               \<and> AppendCb \<notin> set (pending s') \<and> unread s' = []))
       \<and> (appends_ok evs \<and> isFileStreamEnded s \<and> \<not> isUploading s \<longrightarrow> length (finalizes s) = 1)"
proof -
  note c = coherent_run[OF assms]
  have 1: "length (finalizes s) \<le> 1" using c by (simp add: coherent_def)
  have 2: "(finalizes s' \<noteq> finalizes s) = joins ev s
           \<and> (joins ev s \<longrightarrow>
                 finalizes s = [] \<and> finalizes s' = [FINALIZE_request s]
               \<and> \<not> isUploading s' \<and> isFileStreamEnded s'
               \<and> AppendCb \<notin> set (pending s') \<and> unread s' = [])"
    if st: "step ev s = Some (Inr s')" for ev s'
  proof -
    note c' = coherent_step[OF c st]
    note f = finalizes_step[OF c st]
    show ?thesis
    proof (cases "joins ev s")
      case True
      with f have ne: "finalizes s' \<noteq> []" by simp
      note af = at_finalize[OF c' ne]
      from af(5) f True have "finalizes s = []" by simp
      with f True af show ?thesis by simp
    next
      case False
      with f show ?thesis by simp
    qed
  qed
  have 3: "length (finalizes s) = 1" if "appends_ok evs" "isFileStreamEnded s" "\<not> isUploading s"
  proof -
    from settled_run[OF assms that(1)] that(2,3) have "finalizes s \<noteq> []" by (simp add: settled_def)
    from at_finalize(5)[OF c this] show ?thesis .
  qed
  from 1 2 3 show ?thesis by blast
qed

theorem finalize_once_witness:
  "(\<exists>s. run jpeg12 end_last = Some (Inr s) \<and> length (finalizes s) = 1)
 \<and> (\<exists>s. run jpeg12 end_first = Some (Inr s) \<and> length (finalizes s) = 1)"
proof -
  obtain s where s: "run jpeg12 end_last = Some (Inr s)" "isFileStreamEnded s" "\<not> isUploading s"
    using jpeg12_end_last by blast
  obtain t where t: "run jpeg12 end_first = Some (Inr t)" "isFileStreamEnded t" "\<not> isUploading t"
    using jpeg12_end_first by blast
  have ok: "appends_ok end_last" "appends_ok end_first"
    by (simp_all add: appends_ok_def append_failed_def end_last_def end_first_def sample_defs)
  from finalize_once[OF s(1)] s ok(1) have "length (finalizes s) = 1" by blast
  moreover from finalize_once[OF t(1)] t ok(2) have "length (finalizes t) = 1" by blast
  ultimately show ?thesis using s(1) t(1) by blast
qed

lemma stream_step:
  assumes "coherent f s" "step ev s = Some (Inr s')"
  shows "length (appends s) < length (appends s') \<longrightarrow>
           ev = Data \<and> flowing s \<and> \<not> flowing s' \<and> AppendCb \<notin> set (pending s)"
    and "chunkNumber s' \<noteq> chunkNumber s \<longrightarrow> append_answered ev \<and> chunkNumber s' = chunkNumber s + 1"
    and "streamOpen s \<and> \<not> flowing s \<and> flowing s' \<longrightarrow> append_answered ev"
proof -
  have "(length (appends s) < length (appends s') \<longrightarrow>
           ev = Data \<and> flowing s \<and> \<not> flowing s' \<and> AppendCb \<notin> set (pending s))
      \<and> (chunkNumber s' \<noteq> chunkNumber s \<longrightarrow> append_answered ev \<and> chunkNumber s' = chunkNumber s + 1)
      \<and> (streamOpen s \<and> \<not> flowing s \<and> flowing s' \<longrightarrow> append_answered ev)"
  proof (cases ev)
    case Data
    from assms(2) Data have en: "flowing s" by (auto simp: step_def enabled_def split: if_splits)
    with assms(1) have "AppendCb \<notin> set (pending s)" by (auto simp: coherent_def)
    with en Data show ?thesis using assms(2)
      by (auto simp: step_def enabled_def handle_def onData_def appendMedia_def twit_post_def
          appends_def Let_def split: if_splits option.splits)
  next
    case End
    then show ?thesis using assms(2)
      by (auto simp: step_def enabled_def handle_def onEnd_def isUploadComplete_def finalizeMedia_def
          twit_post_def appends_def is_cmd_def Let_def split: if_splits)
  next
    case Timeout
    then show ?thesis using assms(2)
      by (auto simp: step_def enabled_def handle_def checkStatus_def statusMedia_def twit_get_def
          appends_def is_cmd_def split: if_splits)
  next
    case (Response k r)
    note sh = response_shape[OF assms(1) assms(2)[unfolded Response]]
    show ?thesis
    proof (cases k)
      case InitCb
      with assms(1) sh(1) have "\<not> streamOpen s" "chunkNumber s = 0" by (auto simp: coherent_def)
      then show ?thesis using sh(3) Response InitCb
        by (auto simp: dispatch_def call_def initCallback_def cb_def appends_def
            split: option.splits)
    next
      case AppendCb
      then show ?thesis using sh(3) Response
        by (auto simp: dispatch_def call_def appendCallback_def isUploadComplete_def finalizeMedia_def
            twit_post_def cb_def appends_def is_cmd_def append_answered_def Let_def
            split: option.splits if_splits)
    next
      case CheckAsyncFinish
      then show ?thesis using poll_frame[of "r_err r" "r_body r" "r_raw r" "s\<lparr>pending := []\<rparr>" s'] sh(3) Response
        by (simp add: dispatch_def call_def appends_def)
    next
      case StatusCb
      then show ?thesis using poll_frame[of "r_err r" "r_body r" "r_raw r" "s\<lparr>pending := []\<rparr>" s'] sh(3) Response
        by (simp add: dispatch_def call_def appends_def)
    qed
  qed
  then show "length (appends s) < length (appends s') \<longrightarrow>
           ev = Data \<and> flowing s \<and> \<not> flowing s' \<and> AppendCb \<notin> set (pending s)"
    and "chunkNumber s' \<noteq> chunkNumber s \<longrightarrow> append_answered ev \<and> chunkNumber s' = chunkNumber s + 1"
    and "streamOpen s \<and> \<not> flowing s \<and> flowing s' \<longrightarrow> append_answered ev"
    by blast+
qed

lemma one_append_outstanding:
  assumes "coherent f s"
  shows "length (filter (\<lambda>k. k = AppendCb) (pending s)) \<le> 1" "AppendCb \<in> set (pending s) \<longrightarrow> \<not> flowing s"
proof -
  have "length (filter (\<lambda>k. k = AppendCb) (pending s)) \<le> length (pending s)" by (rule length_filter_le)
  also have "\<dots> \<le> 1" using assms by (simp add: coherent_def)
  finally show "length (filter (\<lambda>k. k = AppendCb) (pending s)) \<le> 1" .
  show "AppendCb \<in> set (pending s) \<longrightarrow> \<not> flowing s" using assms by (auto simp: coherent_def)
qed

lemma appends_bound:
  assumes "coherent f s"
  shows "length (appends s) \<le> length (f_chunks f)"
    "isFileStreamEnded s \<longrightarrow> length (appends s) = length (f_chunks f)"
proof -
  from assms have "length (map media_of (appends s)) = length (take (length (appends s)) (f_chunks f))"
    by (simp add: coherent_def)
  then show le: "length (appends s) \<le> length (f_chunks f)" by simp
  show "isFileStreamEnded s \<longrightarrow> length (appends s) = length (f_chunks f)"
  proof
    assume "isFileStreamEnded s"
    with assms have "drop (length (appends s)) (f_chunks f) = []" by (auto simp: coherent_def)
    with le show "length (appends s) = length (f_chunks f)" by simp
  qed
qed

text \<open>
  Claim C2. In every run the APPEND requests sent so far carry the segment indices
  0, 1, 2, ... in this order, without a gap, and the base64 of the first buffers of the
  file, in the file's order; there are never more of them than the stream has buffers, and
  once the stream has ended there are exactly as many. At most one APPEND is outstanding,
  and while one is outstanding the stream is paused. A step sends an APPEND only as the
  \<open>data\<close> listener of a flowing stream with no APPEND outstanding, and leaves the stream
  paused; \<open>chunkNumber\<close> changes only in the step that handles an APPEND answer without
  error, and then by one; a paused stream is resumed only in such a step.
\<close>

theorem append_sequence:
  assumes "run f evs = Some (Inr s)"
  shows "map segment_index_of (appends s) = map (\<lambda>i. Some (JNum (int i))) [0..<length (appends s)]
       \<and> map media_of (appends s) = map (\<lambda>c. Some (JBase64 c)) (take (length (appends s)) (f_chunks f))
       \<and> length (appends s) \<le> length (f_chunks f)
       \<and> (isFileStreamEnded s \<longrightarrow> length (appends s) = length (f_chunks f))
       \<and> length (filter (\<lambda>k. k = AppendCb) (pending s)) \<le> 1
       \<and> (AppendCb \<in> set (pending s) \<longrightarrow> \<not> flowing s)
       \<and> (\<forall>ev s'. step ev s = Some (Inr s') \<longrightarrow>
             (length (appends s) < length (appends s') \<longrightarrow>
                ev = Data \<and> flowing s \<and> \<not> flowing s' \<and> AppendCb \<notin> set (pending s))
           \<and> (chunkNumber s' \<noteq> chunkNumber s \<longrightarrow>
                append_answered ev \<and> chunkNumber s' = chunkNumber s + 1)
           \<and> (streamOpen s \<and> \<not> flowing s \<and> flowing s' \<longrightarrow> append_answered ev))"
proof -
  note c = coherent_run[OF assms]
  from c have "map segment_index_of (appends s) = map (\<lambda>i. Some (JNum (int i))) [0..<length (appends s)]"
    "map media_of (appends s) = map (\<lambda>c. Some (JBase64 c)) (take (length (appends s)) (f_chunks f))"
    by (simp_all add: coherent_def)
  moreover note appends_bound[OF c] one_append_outstanding[OF c]
  moreover have "\<forall>ev s'. step ev s = Some (Inr s') \<longrightarrow>
             (length (appends s) < length (appends s') \<longrightarrow>
                ev = Data \<and> flowing s \<and> \<not> flowing s' \<and> AppendCb \<notin> set (pending s))
           \<and> (chunkNumber s' \<noteq> chunkNumber s \<longrightarrow>
                append_answered ev \<and> chunkNumber s' = chunkNumber s + 1)
           \<and> (streamOpen s \<and> \<not> flowing s \<and> flowing s' \<longrightarrow> append_answered ev)"
    using stream_step[OF c] by blast
  ultimately show ?thesis by blast
qed

theorem append_sequence_witness:
  "\<exists>s. run jpeg12 end_last = Some (Inr s)
     \<and> length (appends s) = 3
     \<and> map segment_index_of (appends s) = [Some (JNum 0), Some (JNum 1), Some (JNum 2)]
     \<and> map media_of (appends s) = [Some (JBase64 ''c0''), Some (JBase64 ''c1''), Some (JBase64 ''c2'')]"
proof -
  obtain s where s: "run jpeg12 end_last = Some (Inr s)" "isFileStreamEnded s"
    using jpeg12_end_last by blast
  have n: "f_chunks jpeg12 = [''c0'', ''c1'', ''c2'']" by (simp add: jpeg12_def)
  from append_sequence[OF s(1)] s(2) have
    l: "length (appends s) = length (f_chunks jpeg12)" and
    i: "map segment_index_of (appends s) = map (\<lambda>i. Some (JNum (int i))) [0..<length (appends s)]" and
    m: "map media_of (appends s) = map (\<lambda>c. Some (JBase64 c)) (take (length (appends s)) (f_chunks jpeg12))"
    by blast+
  have u: "[0..<3] = [0, 1, 2]" by (simp add: upt_rec)
  from l i m show ?thesis using s(1) by (simp add: n u)
qed

subsection \<open>Complete uploads\<close>

lemma straight_stream:
  assumes "r_err ra = None"
  shows "streamOpen s \<Longrightarrow> flowing s \<Longrightarrow> unread s = cs \<Longrightarrow> \<not> isUploading s \<Longrightarrow> \<not> endEmitted s \<Longrightarrow>
         \<not> isFileStreamEnded s \<Longrightarrow> pending s = [] \<Longrightarrow> mediaTmpId s = Some m \<Longrightarrow>
         \<exists>s'. exec (concat (map (\<lambda>c. [Data, Response AppendCb ra]) cs) @ [End]) s = Some (Inr s')
            \<and> length (appends s') = length (appends s) + length cs
            \<and> finalizes s' = finalizes s @ [FINALIZE_request s]
            \<and> pending s' = [CheckAsyncFinish] \<and> cbCalls s' = cbCalls s"
proof (induction cs arbitrary: s)
  case Nil
  then show ?case
    by (simp add: step_def enabled_def handle_def onEnd_def isUploadComplete_def finalizeMedia_def
        twit_post_def appends_def finalizes_def is_cmd_def FINALIZE_request_def)
next
  case (Cons c cs)
  let ?s1 = "twit_post ''media/upload''
               [(''command'', JStr ''APPEND''), (''media_id'', JStr m),
                (''segment_index'', JNum (int (chunkNumber s))), (''media'', JBase64 c)] AppendCb
               (s\<lparr>unread := cs, flowing := False, isUploading := True\<rparr>)"
  let ?s2 = "?s1\<lparr>pending := [], isUploading := False, chunkNumber := chunkNumber s + 1, flowing := True\<rparr>"
  have 1: "step Data s = Some (Inr ?s1)"
    using Cons.prems by (simp add: step_def enabled_def handle_def onData_def appendMedia_def)
  have 2: "step (Response AppendCb ra) ?s1 = Some (Inr ?s2)"
    using Cons.prems assms
    by (simp add: step_def enabled_def handle_def dispatch_def call_def appendCallback_def
        isUploadComplete_def twit_post_def)
  have "streamOpen ?s2" "flowing ?s2" "unread ?s2 = cs" "\<not> isUploading ?s2" "\<not> endEmitted ?s2"
    "\<not> isFileStreamEnded ?s2" "pending ?s2 = []" "mediaTmpId ?s2 = Some m"
    using Cons.prems by (simp_all add: twit_post_def)
  from Cons.IH[OF this] obtain s' where
    s': "exec (concat (map (\<lambda>c. [Data, Response AppendCb ra]) cs) @ [End]) ?s2 = Some (Inr s')"
      "length (appends s') = length (appends ?s2) + length cs"
      "finalizes s' = finalizes ?s2 @ [FINALIZE_request ?s2]"
      "pending s' = [CheckAsyncFinish]" "cbCalls s' = cbCalls ?s2"
    by blast
  have "exec (concat (map (\<lambda>c. [Data, Response AppendCb ra]) (c # cs)) @ [End]) s = Some (Inr s')"
    using 1 2 s'(1) by simp
  moreover have "length (appends ?s2) = Suc (length (appends s))" "finalizes ?s2 = finalizes s"
    "FINALIZE_request ?s2 = FINALIZE_request s" "cbCalls ?s2 = cbCalls s"
    by (simp_all add: twit_post_def appends_def finalizes_def is_cmd_def FINALIZE_request_def)
  ultimately show ?case using s'(2-5) by simp
qed

text \<open>For every file below its ceiling, whatever the number of its buffers, the straight
  order of events is a run: it sends one APPEND per buffer and then FINALIZE once.\<close>

lemma straight_upload:
  assumes "f_stat f = Some n" "n < maxSizeBytes (f_mime f)"
    and "r_err r0 = None" "r_body r0 = Some b0" "media_id_string b0 = Some m" "r_err ra = None"
  shows "\<exists>s. run f (straight r0 ra (f_chunks f)) = Some (Inr s)
           \<and> length (appends s) = length (f_chunks f) \<and> length (finalizes s) = 1
           \<and> pending s = [CheckAsyncFinish] \<and> cbCalls s = []"
proof -
  let ?s0 = "(FileUploader f)\<lparr>sent := [\<lparr>meth = POST, endpoint = ''media/upload'',
                                        params = initParameters (f_mime f) n\<rparr>], pending := [InitCb]\<rparr>"
  let ?s1 = "?s0\<lparr>pending := [], mediaTmpId := Some m, chunkNumber := 0, streamOpen := True,
                 flowing := True, unread := f_chunks f\<rparr>"
  have u: "upload f = Inr ?s0" using assms(1,2) by (rule upload_init)
  have i: "step (Response InitCb r0) ?s0 = Some (Inr ?s1)"
    using assms(3,4,5)
    by (simp add: step_def enabled_def handle_def dispatch_def call_def initCallback_def FileUploader_def)
  have "streamOpen ?s1" "flowing ?s1" "unread ?s1 = f_chunks f" "\<not> isUploading ?s1" "\<not> endEmitted ?s1"
    "\<not> isFileStreamEnded ?s1" "pending ?s1 = []" "mediaTmpId ?s1 = Some m"
    by (simp_all add: FileUploader_def)
  from straight_stream[OF assms(6) this] obtain s where
    s: "exec (concat (map (\<lambda>c. [Data, Response AppendCb ra]) (f_chunks f)) @ [End]) ?s1 = Some (Inr s)"
      "length (appends s) = length (appends ?s1) + length (f_chunks f)"
      "finalizes s = finalizes ?s1 @ [FINALIZE_request ?s1]"
      "pending s = [CheckAsyncFinish]" "cbCalls s = cbCalls ?s1"
    by blast
  have "run f (straight r0 ra (f_chunks f)) = Some (Inr s)"
    using u i s(1) by (simp add: run_def straight_def)
  moreover have "appends ?s1 = []" "finalizes ?s1 = []" "cbCalls ?s1 = []"
    by (simp_all add: appends_def finalizes_def is_cmd_def initParameters_def FileUploader_def)
  ultimately show ?thesis using s(2-5) by simp
qed

section \<open>After FINALIZE: the processing poll\<close>

lemma poll_ready:
  assumes "coherent f s" "k = CheckAsyncFinish \<or> k = StatusCb" "k \<in> set (pending s)"
  shows "pending s = [k]" "timers s = []" "streamOpen s" "unread s = []" "endEmitted s"
proof -
  show "pending s = [k]" "timers s = []"
    using assms single_pending[of "pending s" "timers s" k] by (auto simp: coherent_def)
  from assms have "finalizes s \<noteq> []" by (auto simp: coherent_def)
  with assms(1) show "streamOpen s" "unread s = []" "endEmitted s" by (auto simp: coherent_def)
qed

lemma finalize_answer:
  assumes "coherent f s" "CheckAsyncFinish \<in> set (pending s)" "r_err r = None" "r_body r = Some b"
  shows "step (Response CheckAsyncFinish r) s =
           Some (Inr (case processing_info b of
                        None \<Rightarrow> s\<lparr>pending := [], console := console s @ [LogAsyncFinish (Some b)],
                                   cbCalls := cbCalls s @ [CbCall None (Some b) (r_raw r)]\<rparr>
                      | Some p \<Rightarrow> s\<lparr>pending := [], console := console s @ [LogAsyncFinish (Some b)],
                                     timers := [waitTimeOr 5 (check_after_secs p) * 1000]\<rparr>))"
  using poll_ready[OF assms(1) _ assms(2)] assms(3,4)
  by (simp add: step_def enabled_def handle_def dispatch_def call_def checkAsyncFinish_def cb_def
      console_log_def setTimeout_def split: option.splits)

lemma status_answer:
  assumes "coherent f s" "StatusCb \<in> set (pending s)" "r_err r = None" "r_body r = Some b"
    "processing_info b = Some p"
  shows "step (Response StatusCb r) s =
           Some (if pi_state p = Some ''in_progress'' then
                   Inr (s\<lparr>pending := [], console := console s @ [LogProgress (progress_percent p)],
                          timers := [waitTimeOr 3 (check_after_secs p) * 1000]\<rparr>)
                 else if pi_state p = Some ''failed'' then
                   (case pi_error p of
                      None \<Rightarrow> Inl TypeError
                    | Some e \<Rightarrow> Inr (s\<lparr>pending := [],
                                       cbCalls := cbCalls s @ [CbCall (Some (new_Error (message e))) None None]\<rparr>))
                 else if pi_state p = Some ''succeeded'' then
                   Inr (s\<lparr>pending := [], cbCalls := cbCalls s @ [CbCall None (Some b) (r_raw r)]\<rparr>)
                 else Inr (s\<lparr>pending := []\<rparr>))"
  using poll_ready[OF assms(1) _ assms(2)] assms(3,4,5)
  by (simp add: step_def enabled_def handle_def dispatch_def call_def statusCallback_def cb_def
      console_log_def setTimeout_def split: option.splits)

lemma poll_over:
  assumes "coherent f s" "k = CheckAsyncFinish \<or> k = StatusCb" "k \<in> set (pending s)"
  shows "quiescent (s\<lparr>pending := [], console := l, cbCalls := c\<rparr>)"
  using poll_ready[OF assms] by (simp add: quiescent_def)

lemma not_yet_called:
  assumes "run f evs = Some (Inr s)" "k \<in> set (pending s)" "appends_ok evs"
  shows "cbCalls s = []"
  using settled_run[OF assms(1,3)] assms(2) by (auto simp: settled_def quiescent_def)

lemma timeout_step:
  assumes "timers s = [t]"
  shows "step Timeout s =
     Some (Inr (s\<lparr>timers := [],
                  sent := sent s @ [\<lparr>meth = GET, endpoint = ''media/upload'',
                                    params = [(''command'', JStr ''STATUS''), (''media_id'', js_of (mediaTmpId s))]\<rparr>],
                  pending := pending s @ [StatusCb]\<rparr>))"
  using assms by (simp add: step_def enabled_def handle_def checkStatus_def statusMedia_def twit_get_def)

lemma poll_again:
  assumes "r_err r = None" "r_body r = Some b" "processing_info b = Some p"
    "pi_state p = Some ''in_progress''"
  shows "timers s = [t] \<Longrightarrow> pending s = [] \<Longrightarrow>
         \<exists>s'. exec (concat (replicate n [Timeout, Response StatusCb r])) s = Some (Inr s')
            \<and> length (timers s') = 1 \<and> pending s' = [] \<and> cbCalls s' = cbCalls s
            \<and> length (statuses s') = length (statuses s) + n"
proof (induction n arbitrary: s t)
  case 0
  then show ?case by simp
next
  case (Suc n)
  let ?s1 = "s\<lparr>timers := [],
                  sent := sent s @ [\<lparr>meth = GET, endpoint = ''media/upload'',
                                    params = [(''command'', JStr ''STATUS''), (''media_id'', js_of (mediaTmpId s))]\<rparr>],
                  pending := pending s @ [StatusCb]\<rparr>"
  let ?s2 = "?s1\<lparr>pending := [], console := console s @ [LogProgress (progress_percent p)],
                  timers := [waitTimeOr 3 (check_after_secs p) * 1000]\<rparr>"
  have 1: "step Timeout s = Some (Inr ?s1)" using Suc.prems(1) by (rule timeout_step)
  have 2: "step (Response StatusCb r) ?s1 = Some (Inr ?s2)"
    using assms Suc.prems
    by (simp add: step_def enabled_def handle_def dispatch_def call_def statusCallback_def
        console_log_def setTimeout_def)
  have "timers ?s2 = [waitTimeOr 3 (check_after_secs p) * 1000]" "pending ?s2 = []" by simp_all
  from Suc.IH[OF this] obtain s' where
    s': "exec (concat (replicate n [Timeout, Response StatusCb r])) ?s2 = Some (Inr s')"
      "length (timers s') = 1" "pending s' = []" "cbCalls s' = cbCalls ?s2"
      "length (statuses s') = length (statuses ?s2) + n"
    by blast
  have "exec (concat (replicate (Suc n) [Timeout, Response StatusCb r])) s = Some (Inr s')"
    using 1 2 s'(1) by simp
  moreover have "length (statuses ?s2) = Suc (length (statuses s))"
    by (simp add: statuses_def is_cmd_def)
  ultimately show ?case using s'(2-5) by simp
qed



text \<open>
  Claim C7. In any run, when the transport answers the outstanding STATUS request without
  an error and the body's \<open>processing_info\<close> has state \<open>failed\<close> and an error with message
  \<open>m\<close>, the completion callback is called in that step with an error whose message is
  exactly \<open>m\<close> and with no body; nothing is sent, no timer is set and no event can follow,
  so polling has stopped. Unless an APPEND had failed, this is the only call of the
  callback in the whole run.
\<close>

theorem status_failed:
  assumes "run f evs = Some (Inr s)" and "StatusCb \<in> set (pending s)"
    and "r_err r = None" and "r_body r = Some b" and "processing_info b = Some p"
    and "pi_state p = Some ''failed''" and "pi_error p = Some (PError (Some m))"
  shows "\<exists>s'. step (Response StatusCb r) s = Some (Inr s')
           \<and> cbCalls s' = cbCalls s @ [CbCall (Some (Error m)) None None]
           \<and> sent s' = sent s \<and> pending s' = [] \<and> timers s' = []
           \<and> (\<forall>evs'. evs' \<noteq> [] \<longrightarrow> exec evs' s' = None)
           \<and> (appends_ok evs \<longrightarrow> cbCalls s' = [CbCall (Some (Error m)) None None])"
proof -
  note c = coherent_run[OF assms(1)]
  let ?s' = "s\<lparr>pending := [], cbCalls := cbCalls s @ [CbCall (Some (Error m)) None None]\<rparr>"
  have st: "step (Response StatusCb r) s = Some (Inr ?s')"
    using status_answer[OF c assms(2,3,4,5)] assms(6,7) by (simp add: new_Error_def)
  have "quiescent (s\<lparr>pending := [], console := console s,
                     cbCalls := cbCalls s @ [CbCall (Some (Error m)) None None]\<rparr>)"
    using c _ assms(2) by (rule poll_over) simp
  then have "quiescent ?s'" by simp
  then have q: "\<forall>evs'. evs' \<noteq> [] \<longrightarrow> exec evs' ?s' = None"
    by (blast intro: quiescent_exec)
  have "appends_ok evs \<longrightarrow> cbCalls s = []"
    using not_yet_called[OF assms(1,2)] by simp
  then show ?thesis using st q poll_ready(2)[OF c _ assms(2)] by simp
qed

theorem status_failed_witness:
  "\<exists>s s'. run clip to_status = Some (Inr s)
     \<and> step (Response StatusCb (answer (media (Some transcode_failed)))) s = Some (Inr s')
     \<and> cbCalls s' = [CbCall (Some (Error ''transcode error'')) None None]
     \<and> timers s' = [] \<and> pending s' = []"
proof -
  obtain s where s: "run clip to_status = Some (Inr s)" "pending s = [StatusCb]"
    using clip_polling by blast
  have p: "StatusCb \<in> set (pending s)" using s(2) by simp
  let ?r = "answer (media (Some transcode_failed))"
  have a: "r_err ?r = None" "r_body ?r = Some (media (Some transcode_failed))"
    "processing_info (media (Some transcode_failed)) = Some transcode_failed"
    "pi_state transcode_failed = Some ''failed''"
    "pi_error transcode_failed = Some (PError (Some ''transcode error''))"
    by (simp_all add: answer_def media_def transcode_failed_def info_def)
  from status_failed[OF s(1) p a] to_status_ok s(1) show ?thesis by auto
qed

text \<open>
  Claim C10. In any run, when the transport answers the outstanding STATUS request without
  an error and the state in the body's \<open>processing_info\<close> is none of \<open>in_progress\<close>, \<open>failed\<close>
  and \<open>succeeded\<close> (or is missing), the callback of \<open>_statusMedia\<close> does nothing: no timer is
  set, no request is sent, the completion callback is not called, and no event can follow.
  Unless an APPEND had failed, the completion callback has then not been called at all, and
  never will be.
\<close>

theorem status_unknown_state:
  assumes "run f evs = Some (Inr s)" and "StatusCb \<in> set (pending s)"
    and "r_err r = None" and "r_body r = Some b" and "processing_info b = Some p"
    and "pi_state p \<notin> {Some ''in_progress'', Some ''failed'', Some ''succeeded''}"
  shows "\<exists>s'. step (Response StatusCb r) s = Some (Inr s')
           \<and> cbCalls s' = cbCalls s \<and> sent s' = sent s \<and> console s' = console s
           \<and> pending s' = [] \<and> timers s' = []
           \<and> (\<forall>evs'. evs' \<noteq> [] \<longrightarrow> exec evs' s' = None)
           \<and> (appends_ok evs \<longrightarrow> cbCalls s' = [])"
proof -
  note c = coherent_run[OF assms(1)]
  let ?s' = "s\<lparr>pending := []\<rparr>"
  have st: "step (Response StatusCb r) s = Some (Inr ?s')"
    using status_answer[OF c assms(2,3,4,5)] assms(6) by simp
  have "quiescent (s\<lparr>pending := [], console := console s, cbCalls := cbCalls s\<rparr>)"
    using c _ assms(2) by (rule poll_over) simp
  then have "quiescent ?s'" by simp
  then have q: "\<forall>evs'. evs' \<noteq> [] \<longrightarrow> exec evs' ?s' = None"
    by (blast intro: quiescent_exec)
  have "appends_ok evs \<longrightarrow> cbCalls s = []"
    using not_yet_called[OF assms(1,2)] by simp
  then show ?thesis using st q poll_ready(2)[OF c _ assms(2)] by simp
qed

theorem status_unknown_state_witness:
  "\<exists>s s'. run clip to_status = Some (Inr s)
     \<and> step (Response StatusCb (answer (media (Some (info ''cancelled'' None))))) s = Some (Inr s')
     \<and> cbCalls s' = [] \<and> timers s' = [] \<and> pending s' = []
     \<and> (\<forall>evs'. evs' \<noteq> [] \<longrightarrow> exec evs' s' = None)"
proof -
  obtain s where s: "run clip to_status = Some (Inr s)" "pending s = [StatusCb]"
    using clip_polling by blast
  have p: "StatusCb \<in> set (pending s)" using s(2) by simp
  let ?p = "info ''cancelled'' None"
  let ?r = "answer (media (Some ?p))"
  have a: "r_err ?r = None" "r_body ?r = Some (media (Some ?p))"
    "processing_info (media (Some ?p)) = Some ?p"
    "pi_state ?p \<notin> {Some ''in_progress'', Some ''failed'', Some ''succeeded''}"
    by (simp_all add: answer_def media_def info_def)
  from status_unknown_state[OF s(1) p a] to_status_ok s(1) show ?thesis by auto
qed

text \<open>
  Claim C6 says that the delay comes from \<open>check_after_secs\<close> whenever the field is present.
  The source tests \<open>!waitTime\<close>, which also holds for the number 0: a FINALIZE answer with
  \<open>check_after_secs = 0\<close> schedules the first poll after 5000 ms, not after 0 ms.
\<close>

theorem wait_zero_counterexample:
  "map_option (map_sum id timers)
     (run clip (to_finalize @ [Response CheckAsyncFinish (answer (media (Some (info ''pending'' (Some 0)))))]))
   = Some (Inr [5000])"
  by (simp add: model_defs sample_defs)

text \<open>
  Claim C6, amended. In any run, when the outstanding FINALIZE is answered without error
  and with a \<open>processing_info\<close>, one timer is set whose delay is \<open>check_after_secs\<close> seconds
  when that field is present and not 0, and 5 seconds when it is absent or 0. When an
  outstanding STATUS request is answered with state \<open>in_progress\<close>, the progress percent is
  written to the console, the completion callback is not called, and one timer is set whose
  delay is \<open>check_after_secs\<close> seconds when present and not 0, and 3 seconds when absent or
  0. A timer that fires sends one STATUS request for the media id. There is no bound on the
  number of polls: after any number \<open>n\<close> of further polls answered \<open>in_progress\<close>, a timer
  is pending again, \<open>n\<close> more STATUS requests have been sent and the callback has still not
  been called.
\<close>

theorem poll_delays:
  assumes "run f evs = Some (Inr s)"
    and "r_err r = None" and "r_body r = Some b" and "processing_info b = Some p"
  shows "(CheckAsyncFinish \<in> set (pending s) \<longrightarrow>
            (\<exists>s'. step (Response CheckAsyncFinish r) s = Some (Inr s')
               \<and> timers s' =
                   [(case check_after_secs p of None \<Rightarrow> 5 | Some w \<Rightarrow> if w = 0 then 5 else w) * 1000]
               \<and> cbCalls s' = cbCalls s \<and> sent s' = sent s))
       \<and> (StatusCb \<in> set (pending s) \<and> pi_state p = Some ''in_progress'' \<longrightarrow>
            (\<exists>s'. step (Response StatusCb r) s = Some (Inr s')
               \<and> timers s' =
                   [(case check_after_secs p of None \<Rightarrow> 3 | Some w \<Rightarrow> if w = 0 then 3 else w) * 1000]
               \<and> console s' = console s @ [LogProgress (progress_percent p)]
               \<and> cbCalls s' = cbCalls s \<and> sent s' = sent s
               \<and> (\<forall>n. \<exists>s''. exec (concat (replicate n [Timeout, Response StatusCb r])) s' = Some (Inr s'')
                      \<and> length (timers s'') = 1 \<and> cbCalls s'' = cbCalls s
                      \<and> length (statuses s'') = length (statuses s) + n)))
       \<and> (timers s \<noteq> [] \<longrightarrow>
            (\<exists>s'. step Timeout s = Some (Inr s')
               \<and> sent s' = sent s @ [\<lparr>meth = GET, endpoint = ''media/upload'',
                                       params = [(''command'', JStr ''STATUS''),
                                                 (''media_id'', js_of (mediaTmpId s))]\<rparr>]
               \<and> pending s' = [StatusCb] \<and> timers s' = []))"
proof -
  note c = coherent_run[OF assms(1)]
  have 1: "\<exists>s'. step (Response CheckAsyncFinish r) s = Some (Inr s')
               \<and> timers s' =
                   [(case check_after_secs p of None \<Rightarrow> 5 | Some w \<Rightarrow> if w = 0 then 5 else w) * 1000]
               \<and> cbCalls s' = cbCalls s \<and> sent s' = sent s"
    if "CheckAsyncFinish \<in> set (pending s)"
    using finalize_answer[OF c that assms(2,3)] assms(4) by (simp add: waitTimeOr_def)
  have 2: "\<exists>s'. step (Response StatusCb r) s = Some (Inr s')
               \<and> timers s' =
                   [(case check_after_secs p of None \<Rightarrow> 3 | Some w \<Rightarrow> if w = 0 then 3 else w) * 1000]
               \<and> console s' = console s @ [LogProgress (progress_percent p)]
               \<and> cbCalls s' = cbCalls s \<and> sent s' = sent s
               \<and> (\<forall>n. \<exists>s''. exec (concat (replicate n [Timeout, Response StatusCb r])) s' = Some (Inr s'')
                      \<and> length (timers s'') = 1 \<and> cbCalls s'' = cbCalls s
                      \<and> length (statuses s'') = length (statuses s) + n)"
    if h: "StatusCb \<in> set (pending s)" "pi_state p = Some ''in_progress''"
  proof -
    let ?s' = "s\<lparr>pending := [], console := console s @ [LogProgress (progress_percent p)],
                  timers := [waitTimeOr 3 (check_after_secs p) * 1000]\<rparr>"
    have st: "step (Response StatusCb r) s = Some (Inr ?s')"
      using status_answer[OF c h(1) assms(2,3,4)] h(2) by simp
    have t: "timers ?s' = [waitTimeOr 3 (check_after_secs p) * 1000]" "pending ?s' = []" by simp_all
    have "\<exists>s''. exec (concat (replicate n [Timeout, Response StatusCb r])) ?s' = Some (Inr s'')
                      \<and> length (timers s'') = 1 \<and> cbCalls s'' = cbCalls s
                      \<and> length (statuses s'') = length (statuses s) + n" for n
      using poll_again[OF assms(2,3,4) h(2) t, of n] by (auto simp: statuses_def)
    then show ?thesis using st by (simp add: waitTimeOr_def)
  qed
  have 3: "\<exists>s'. step Timeout s = Some (Inr s')
               \<and> sent s' = sent s @ [\<lparr>meth = GET, endpoint = ''media/upload'',
                                       params = [(''command'', JStr ''STATUS''),
                                                 (''media_id'', js_of (mediaTmpId s))]\<rparr>]
               \<and> pending s' = [StatusCb] \<and> timers s' = []"
    if h: "timers s \<noteq> []"
  proof -
    from c h have "pending s = []" "length (timers s) = 1"
      by (cases "timers s"; auto simp: coherent_def)+
    then obtain t where "timers s = [t]" "pending s = []"
      by (cases "timers s") auto
    then show ?thesis using timeout_step[of s t] by simp
  qed
  from 1 2 3 show ?thesis by blast
qed

theorem poll_delays_witness:
  "\<exists>s s' s''. run clip to_status = Some (Inr s)
     \<and> step (Response StatusCb (answer (media (Some (info ''in_progress'' (Some 2)))))) s = Some (Inr s')
     \<and> timers s' = [2000] \<and> console s' = console s @ [LogProgress None] \<and> cbCalls s' = []
     \<and> exec (concat (replicate 7 [Timeout, Response StatusCb (answer (media (Some (info ''in_progress'' (Some 2)))))])) s'
          = Some (Inr s'')
     \<and> length (timers s'') = 1 \<and> cbCalls s'' = []"
proof -
  obtain s where s: "run clip to_status = Some (Inr s)" "pending s = [StatusCb]" "cbCalls s = []"
    using clip_polling by blast
  have p: "StatusCb \<in> set (pending s) \<and> pi_state (info ''in_progress'' (Some 2)) = Some ''in_progress''"
    using s(2) by (simp add: info_def)
  let ?p = "info ''in_progress'' (Some 2)"
  let ?r = "answer (media (Some ?p))"
  have a: "r_err ?r = None" "r_body ?r = Some (media (Some ?p))"
    "processing_info (media (Some ?p)) = Some ?p"
    by (simp_all add: answer_def media_def)
  have v: "check_after_secs ?p = Some 2" "progress_percent ?p = None" by (simp_all add: info_def)
  from poll_delays[OF s(1) a] p obtain s' where
    s': "step (Response StatusCb ?r) s = Some (Inr s')"
        "timers s' = [2000]" "console s' = console s @ [LogProgress None]" "cbCalls s' = cbCalls s"
        "\<forall>n. \<exists>s''. exec (concat (replicate n [Timeout, Response StatusCb ?r])) s' = Some (Inr s'')
                      \<and> length (timers s'') = 1 \<and> cbCalls s'' = cbCalls s
                      \<and> length (statuses s'') = length (statuses s) + n"
    unfolding v by auto
  from s'(5) obtain s'' where
    "exec (concat (replicate 7 [Timeout, Response StatusCb ?r])) s' = Some (Inr s'')"
    "length (timers s'') = 1" "cbCalls s'' = cbCalls s"
    by blast
  with s s' show ?thesis by auto
qed

section \<open>One callback per upload\<close>

text \<open>A transport error in the answer to any outstanding call is passed to the completion
  callback alone, in that step, and nothing is sent. After a failed INIT, FINALIZE or
  STATUS no event can follow. After a failed APPEND the stream stays paused, so no event
  can follow either, unless the host has yet to signal the end of a stream that has no
  buffer left.\<close>

lemma transport_error:
  assumes "run f evs = Some (Inr s)" "k \<in> set (pending s)" "r_err r = Some e"
  shows "\<exists>s'. step (Response k r) s = Some (Inr s')
           \<and> cbCalls s' = cbCalls s @ [CbCall (Some e) None None]
           \<and> sent s' = sent s \<and> pending s' = [] \<and> timers s' = []
           \<and> (k \<noteq> AppendCb \<or> endEmitted s \<or> unread s \<noteq> [] \<longrightarrow> quiescent s')
           \<and> (appends_ok evs \<longrightarrow> cbCalls s = [])"
proof -
  note c = coherent_run[OF assms(1)]
  from c assms(2) have p: "pending s = [k]" "timers s = []"
    using single_pending[of "pending s" "timers s" k] by (auto simp: coherent_def)
  have nc: "appends_ok evs \<longrightarrow> cbCalls s = []"
    using not_yet_called[OF assms(1,2)] by simp
  show ?thesis
  proof (cases k)
    case InitCb
    with c p have "\<not> streamOpen s" by (simp add: coherent_def)
    then show ?thesis using InitCb p assms(3) nc
      by (simp add: step_def enabled_def handle_def dispatch_def call_def initCallback_def cb_def
          quiescent_def)
  next
    case AppendCb
    with c p have "\<not> flowing s" by (simp add: coherent_def)
    then show ?thesis using AppendCb p assms(3) nc
      by (auto simp: step_def enabled_def handle_def dispatch_def call_def appendCallback_def cb_def
          quiescent_def)
  next
    case CheckAsyncFinish
    with poll_ready[OF c _ assms(2)] show ?thesis using p assms(3) nc
      by (simp add: step_def enabled_def handle_def dispatch_def call_def checkAsyncFinish_def cb_def
          quiescent_def)
  next
    case StatusCb
    with poll_ready[OF c _ assms(2)] show ?thesis using p assms(3) nc
      by (simp add: step_def enabled_def handle_def dispatch_def call_def statusCallback_def cb_def
          quiescent_def)
  qed
qed

text \<open>When processing succeeds, the completion callback gets no error and the body of that
  STATUS answer, and no event can follow.\<close>

lemma status_succeeded:
  assumes "run f evs = Some (Inr s)" "StatusCb \<in> set (pending s)"
    "r_err r = None" "r_body r = Some b" "processing_info b = Some p" "pi_state p = Some ''succeeded''"
  shows "\<exists>s'. step (Response StatusCb r) s = Some (Inr s')
           \<and> cbCalls s' = cbCalls s @ [CbCall None (Some b) (r_raw r)]
           \<and> quiescent s' \<and> (appends_ok evs \<longrightarrow> cbCalls s = [])"
proof -
  note c = coherent_run[OF assms(1)]
  have "quiescent (s\<lparr>pending := [], console := console s,
                     cbCalls := cbCalls s @ [CbCall None (Some b) (r_raw r)]\<rparr>)"
    using c _ assms(2) by (rule poll_over) simp
  moreover have "appends_ok evs \<longrightarrow> cbCalls s = []"
    using not_yet_called[OF assms(1,2)] by simp
  ultimately show ?thesis
    using status_answer[OF c assms(2,3,4,5)] assms(6) by simp
qed

text \<open>
  Claim C4 promises one call of the completion callback for every upload. The switch in
  the STATUS callback handles \<open>in_progress\<close>, \<open>failed\<close> and \<open>succeeded\<close> and has no default
  case. For a one-buffer MP4 whose processing the server reports as \<open>pending\<close>, INIT,
  APPEND and FINALIZE succeed, the first STATUS poll is answered with that state, and the
  run ends there: no request and no timer is outstanding, the stream has ended, and the
  callback has not been called.
\<close>

theorem pending_state_never_calls_back:
  "map_option (map_sum id (\<lambda>s. (cbCalls s, pending s, timers s, unread s, endEmitted s, quiescent s)))
     (run clip (to_status @ [Response StatusCb (answer (media (Some (info ''pending'' None))))]))
   = Some (Inr ([], [], [], [], True, True))"
  by (simp add: model_defs sample_defs to_status_def quiescent_def)

text \<open>The exception left open above is a run of this host: the only APPEND of a one-buffer
  file fails, the callback gets the error, and when \<open>end\<close> is signalled afterwards the
  \<open>end\<close> listener finds \<open>_isUploading\<close> false and sends FINALIZE, whose answer reaches the
  callback as a second call. It needs a stream that signals \<open>end\<close> while it is paused;
  a stream that signals \<open>end\<close> only while flowing has no such run, because the source
  resumes the stream only after an APPEND without error.\<close>

lemma end_after_failed_append:
  "map_option (map_sum id (\<lambda>s. (length (finalizes s), cbCalls s))) (run clip late_end)
   = Some (Inr (1, [CbCall (Some (TransportError ''ECONNRESET'')) None None,
                    CbCall None (Some (media None)) (Some ''200'')]))"
  by (simp add: model_defs sample_defs late_end_def finalizes_def is_cmd_def)

end
